theory Spec2Isabelle
  imports Main "HOL-Library.Sublist"
begin

section \<open>Characters and strings\<close>

text \<open>
  JavaScript strings are modelled as \<open>string\<close> (lists of characters). The characters
  that cannot be written inside an Isabelle string literal get a name.
\<close>

definition squote :: char where "squote = CHR 0x27"
definition dquote :: char where "dquote = CHR 0x22"
definition backslash :: char where "backslash = CHR 0x5C"
definition backtick :: char where "backtick = CHR 0x60"
definition slash :: char where "slash = CHR ''/''"
definition dollar :: char where "dollar = CHR ''$''"

definition isQuote :: "char \<Rightarrow> bool" where
  "isQuote c = (c = squote \<or> c = dquote)"

text \<open>\<open>s.startsWith(p)\<close> and \<open>s.endsWith(p)\<close>.\<close>

definition startsWith :: "string \<Rightarrow> string \<Rightarrow> bool" where
  "startsWith s p = prefix p s"

definition endsWith :: "string \<Rightarrow> string \<Rightarrow> bool" where
  "endsWith s p = suffix p s"

text \<open>\<open>s.replace(/\\/g, '/')\<close>: every backslash becomes a forward slash.\<close>

definition toForwardSlashes :: "string \<Rightarrow> string" where
  "toForwardSlashes s = map (\<lambda>c. if c = backslash then slash else c) s"

text \<open>\<open>xs.join(sep)\<close> of JavaScript arrays.\<close>

fun joinWith :: "string \<Rightarrow> string list \<Rightarrow> string" where
  "joinWith sep [] = []"
| "joinWith sep [x] = x"
| "joinWith sep (x # y # ys) = x @ sep @ joinWith sep (y # ys)"

text \<open>\<open>s.split(c)\<close> for a one-character separator: never the empty list.\<close>

fun splitOn :: "char \<Rightarrow> string \<Rightarrow> string list" where
  "splitOn d [] = [[]]"
| "splitOn d (c # cs) =
     (if c = d then [] # splitOn d cs
      else (case splitOn d cs of
              [] \<Rightarrow> [[c]]
            | w # ws \<Rightarrow> (c # w) # ws))"

section \<open>The \<open>path\<close> module (POSIX flavour)\<close>

text \<open>
  The program calls \<open>path.join\<close>, \<open>path.dirname\<close>, \<open>path.basename\<close> and
  \<open>path.relative\<close> of the Node.js standard library. They are modelled here for the
  POSIX variant of the module, on strings, after the documented behaviour:
  a path is cut at the separator, empty and \<open>.\<close> segments are dropped and \<open>..\<close>
  removes the segment before it.
\<close>

fun normalizeSegs :: "bool \<Rightarrow> string list \<Rightarrow> string list \<Rightarrow> string list" where
  "normalizeSegs allowAboveRoot res [] = res"
| "normalizeSegs allowAboveRoot res (s # ss) =
     (if s = [] \<or> s = ''.'' then normalizeSegs allowAboveRoot res ss
      else if s = ''..'' then
        (if res \<noteq> [] \<and> last res \<noteq> ''..'' then normalizeSegs allowAboveRoot (butlast res) ss
         else if allowAboveRoot then normalizeSegs allowAboveRoot (res @ [''..'']) ss
         else normalizeSegs allowAboveRoot res ss)
      else normalizeSegs allowAboveRoot (res @ [s]) ss)"

definition isAbsolute :: "string \<Rightarrow> bool" where
  "isAbsolute p = (case p of [] \<Rightarrow> False | c # _ \<Rightarrow> c = slash)"

definition normalize :: "string \<Rightarrow> string" where
  "normalize p =
     (if p = [] then ''.''
      else
        let trailingSeparator = (last p = slash);
            r = joinWith [slash] (normalizeSegs (\<not> isAbsolute p) [] (splitOn slash p))
        in if r = [] then
             (if isAbsolute p then [slash]
              else if trailingSeparator then ''./'' else ''.'')
           else
             (if isAbsolute p then [slash] else []) @ r @
             (if trailingSeparator then [slash] else []))"

text \<open>\<open>path.join(a, b)\<close>: the non-empty arguments joined by the separator, normalised.\<close>

definition join :: "string \<Rightarrow> string \<Rightarrow> string" where
  "join a b =
     (if a = [] \<and> b = [] then ''.''
      else if a = [] then normalize b
      else if b = [] then normalize a
      else normalize (a @ [slash] @ b))"

text \<open>
  \<open>path.dirname\<close>: trailing separators are skipped, then the last segment and the
  separator before it are cut off; the first character is never cut.
\<close>

definition dirname :: "string \<Rightarrow> string" where
  "dirname p =
     (case p of
        [] \<Rightarrow> ''.''
      | c # t \<Rightarrow>
          (case dropWhile (\<lambda>x. x \<noteq> slash) (dropWhile (\<lambda>x. x = slash) (rev t)) of
             [] \<Rightarrow> (if c = slash then [slash] else ''.'')
           | _ # rest \<Rightarrow> (if c = slash \<and> rest = [] then ''//'' else c # rev rest)))"

text \<open>\<open>path.basename\<close>: the last segment, trailing separators skipped.\<close>

definition basename :: "string \<Rightarrow> string" where
  "basename p = rev (takeWhile (\<lambda>x. x \<noteq> slash) (dropWhile (\<lambda>x. x = slash) (rev p)))"

text \<open>
  \<open>path.resolve\<close> of one argument, as the segments of the absolute path; a relative
  argument is resolved against the working directory of the process.
\<close>

definition resolveSegs :: "string \<Rightarrow> string \<Rightarrow> string list" where
  "resolveSegs cwd p =
     normalizeSegs False []
       (splitOn slash (if isAbsolute p then p else cwd @ [slash] @ p))"

fun commonPrefixLen :: "string list \<Rightarrow> string list \<Rightarrow> nat" where
  "commonPrefixLen (x # xs) (y # ys) = (if x = y then Suc (commonPrefixLen xs ys) else 0)"
| "commonPrefixLen _ _ = 0"

text \<open>
  \<open>path.relative(from, to)\<close>: both paths are resolved, their common leading segments
  are dropped, and every remaining segment of \<open>from\<close> is climbed with \<open>..\<close>.
\<close>

definition relative :: "string \<Rightarrow> string \<Rightarrow> string \<Rightarrow> string" where
  "relative cwd from to =
     (let f = resolveSegs cwd from;
          t = resolveSegs cwd to;
          n = commonPrefixLen f t
      in joinWith [slash] (replicate (length f - n) ''..'' @ drop n t))"

section \<open>Regular expressions and \<open>String.prototype.replace\<close>\<close>

text \<open>
  The characters of the class \<open>/[.*+?^${}()|[\]\\]/\<close> that the program escapes before
  it builds a pattern: the syntax characters of JavaScript regular expressions.
\<close>

definition regexSpecials :: "char list" where
  "regexSpecials = ''.*+?^${}()|[]'' @ [backslash]"

text \<open>\<open>s.replace(/[.*+?^${}()|[\]\\]/g, '\\$&')\<close>: a backslash before every such character.\<close>

definition escapeRegExp :: "string \<Rightarrow> string" where
  "escapeRegExp s = concat (map (\<lambda>c. if c \<in> set regexSpecials then [backslash, c] else [c]) s)"

text \<open>
  The fragment of regular expressions the program builds: a sequence of atoms, each
  matching one character, either a literal or a character class.
\<close>

datatype atom = Lit char | OneOf "char list"

type_synonym regex = "atom list"

datatype error =
    ENOENT | ENOTDIR | EISDIR | EACCES | EEXIST
  | RegExpError | MinifyError | ObfuscateError

text \<open>
  The members of a character class, read after the opening bracket up to the closing
  one. Ranges, negation and escapes inside a class are outside the fragment.
\<close>

fun parseClass :: "string \<Rightarrow> (char list \<times> string) option" where
  "parseClass [] = None"
| "parseClass (c # cs) =
     (if c = CHR '']'' then Some ([], cs)
      else if c = backslash \<or> c = CHR ''^'' \<or> c = CHR ''-'' then None
      else (case parseClass cs of
              None \<Rightarrow> None
            | Some (ms, rest) \<Rightarrow> Some (c # ms, rest)))"

lemma parseClass_length:
  "parseClass cs = Some (ms, rest) \<Longrightarrow> length rest < Suc (length cs)"
  by (induction cs arbitrary: ms rest) (auto split: if_splits option.splits)

text \<open>
  \<open>new RegExp(source)\<close> on that fragment: a backslash makes the syntax character after it
  a literal, a bracket opens a class, any other character that is not a syntax character
  stands for itself. A source outside the fragment (a quantifier, a group, an anchor, a
  wildcard, a dangling backslash) is reported as an error: for JavaScript it would be
  either a syntax error or a pattern with another meaning.
\<close>

function parseRegExp :: "string \<Rightarrow> regex option" where
  "parseRegExp [] = Some []"
| "parseRegExp (c # cs) =
     (if c = backslash then
        (case cs of
           [] \<Rightarrow> None
         | d # ds \<Rightarrow>
             (if d \<in> set regexSpecials then map_option (Cons (Lit d)) (parseRegExp ds)
              else None))
      else if c = CHR ''['' then
        (case parseClass cs of
           None \<Rightarrow> None
         | Some (ms, rest) \<Rightarrow> map_option (Cons (OneOf ms)) (parseRegExp rest))
      else if c \<in> set regexSpecials then None
      else map_option (Cons (Lit c)) (parseRegExp cs))"
  by pat_completeness auto
termination
  by (relation "measure length") (auto dest: parseClass_length)

definition RegExp :: "string \<Rightarrow> error + regex" where
  "RegExp source = (case parseRegExp source of None \<Rightarrow> Inl RegExpError | Some re \<Rightarrow> Inr re)"

fun matchAtom :: "atom \<Rightarrow> char \<Rightarrow> bool" where
  "matchAtom (Lit d) c = (c = d)"
| "matchAtom (OneOf ms) c = (c \<in> set ms)"

text \<open>Does the pattern match at the start of the string?\<close>

fun matchesAt :: "regex \<Rightarrow> string \<Rightarrow> bool" where
  "matchesAt [] s = True"
| "matchesAt (a # as) [] = False"
| "matchesAt (a # as) (c # cs) = (matchAtom a c \<and> matchesAt as cs)"

text \<open>\<open>regex.test(s)\<close> with \<open>lastIndex = 0\<close>: is there a match anywhere?\<close>

fun regexTest :: "regex \<Rightarrow> string \<Rightarrow> bool" where
  "regexTest re [] = matchesAt re []"
| "regexTest re (c # cs) = (matchesAt re (c # cs) \<or> regexTest re cs)"

text \<open>
  The replacement text of \<open>replace\<close> for one match (GetSubstitution of the language
  specification, for a pattern without capture groups): \<open>$$\<close> is a dollar, \<open>$&\<close> the
  matched text, \<open>$`\<close> the text before the match, \<open>$'\<close> the text after it; any other
  dollar stands for itself.
\<close>

fun expandReplacement :: "string \<Rightarrow> string \<Rightarrow> string \<Rightarrow> string \<Rightarrow> string" where
  "expandReplacement [] matched preceding following = []"
| "expandReplacement [c] matched preceding following = [c]"
| "expandReplacement (c # d # r) matched preceding following =
     (if c = dollar then
        (if d = dollar then dollar # expandReplacement r matched preceding following
         else if d = CHR ''&'' then matched @ expandReplacement r matched preceding following
         else if d = backtick then preceding @ expandReplacement r matched preceding following
         else if d = squote then following @ expandReplacement r matched preceding following
         else c # expandReplacement (d # r) matched preceding following)
      else c # expandReplacement (d # r) matched preceding following)"

text \<open>
  \<open>s.replace(regex, template)\<close> for a global regex: the string is scanned from the
  left; at a match the expanded template is emitted and the scan goes on behind the
  match; elsewhere the character is kept. \<open>preceding\<close> is the part of the subject string
  already scanned. An empty pattern matches before every character and at the end.
\<close>

function replaceFrom :: "regex \<Rightarrow> string \<Rightarrow> string \<Rightarrow> string \<Rightarrow> string" where
  "replaceFrom re template preceding [] =
     (if re = [] then expandReplacement template [] preceding [] else [])"
| "replaceFrom re template preceding (c # cs) =
     (if re = [] then
        expandReplacement template [] preceding (c # cs) @
        c # replaceFrom re template (preceding @ [c]) cs
      else if matchesAt re (c # cs) then
        expandReplacement template (take (length re) (c # cs)) preceding
          (drop (length re) (c # cs)) @
        replaceFrom re template (preceding @ take (length re) (c # cs))
          (drop (length re) (c # cs))
      else c # replaceFrom re template (preceding @ [c]) cs)"
  by pat_completeness auto
termination
  by (relation "measure (\<lambda>(re, template, preceding, s). length s)") auto

definition replaceAll :: "regex \<Rightarrow> string \<Rightarrow> string \<Rightarrow> string" where
  "replaceAll re template s = replaceFrom re template [] s"

section \<open>The file system\<close>

text \<open>
  The file system is a tree. A directory lists its entries in the order in which
  \<open>fs.readdirSync\<close> reports them. \<open>Locked\<close> is a directory that \<open>fs.statSync\<close> can stat
  but whose listing is refused; \<open>Fault e\<close> is an entry on which every access raises \<open>e\<close>
  (a dangling link raises \<open>ENOENT\<close>). Links that close a cycle are not modelled.
  A file holds the text that reading it as UTF-8 gives and that writing stores again;
  files whose bytes are not valid UTF-8 are not modelled.
\<close>

datatype fsnode =
    File string
  | Dir "(string \<times> fsnode) list"
  | Locked
  | Fault error

text \<open>\<open>fs.statSync(p).isDirectory()\<close> and \<open>fs.readdirSync(p)\<close>, on the node at \<open>p\<close>.\<close>

fun statSync :: "fsnode \<Rightarrow> error + bool" where
  "statSync (File _) = Inr False"
| "statSync (Dir _) = Inr True"
| "statSync Locked = Inr True"
| "statSync (Fault e) = Inl e"

fun readdirSync :: "fsnode \<Rightarrow> error + (string \<times> fsnode) list" where
  "readdirSync (Dir es) = Inr es"
| "readdirSync (File _) = Inl ENOTDIR"
| "readdirSync Locked = Inl EACCES"
| "readdirSync (Fault e) = Inl e"

fun setEntry :: "string \<Rightarrow> fsnode \<Rightarrow> (string \<times> fsnode) list \<Rightarrow> (string \<times> fsnode) list" where
  "setEntry name n [] = [(name, n)]"
| "setEntry name n ((k, v) # es) =
     (if k = name then (name, n) # es else (k, v) # setEntry name n es)"

text \<open>The node reached from a node by a list of segments.\<close>

fun lookupSegs :: "fsnode \<Rightarrow> string list \<Rightarrow> fsnode" where
  "lookupSegs n [] = n"
| "lookupSegs (Dir es) (s # ss) =
     (case map_of es s of None \<Rightarrow> Fault ENOENT | Some c \<Rightarrow> lookupSegs c ss)"
| "lookupSegs (File _) (s # ss) = Fault ENOTDIR"
| "lookupSegs Locked (s # ss) = Fault EACCES"
| "lookupSegs (Fault e) (s # ss) = Fault e"

text \<open>\<open>fs.mkdirSync(p, { recursive: true })\<close>: the missing directories of the path are created.\<close>

fun mkdirSegs :: "fsnode \<Rightarrow> string list \<Rightarrow> error + fsnode" where
  "mkdirSegs (Dir es) [] = Inr (Dir es)"
| "mkdirSegs (Dir es) (s # ss) =
     (case mkdirSegs (case map_of es s of None \<Rightarrow> Dir [] | Some c \<Rightarrow> c) ss of
        Inl e \<Rightarrow> Inl e
      | Inr c' \<Rightarrow> Inr (Dir (setEntry s c' es)))"
| "mkdirSegs (File _) [] = Inl EEXIST"
| "mkdirSegs (File _) (s # ss) = Inl ENOTDIR"
| "mkdirSegs Locked [] = Inr Locked"
| "mkdirSegs Locked (s # ss) = Inl EACCES"
| "mkdirSegs (Fault e) ss = Inl e"

text \<open>
  \<open>fs.writeFileSync(p, data)\<close>: the file is created or overwritten; the directory it
  goes into must exist.
\<close>

fun writeSegs :: "fsnode \<Rightarrow> string list \<Rightarrow> string \<Rightarrow> error + fsnode" where
  "writeSegs (File _) [] data = Inr (File data)"
| "writeSegs (Dir es) [] data = Inl EISDIR"
| "writeSegs Locked [] data = Inl EISDIR"
| "writeSegs (Fault e) ss data = Inl e"
| "writeSegs (File _) (s # ss) data = Inl ENOTDIR"
| "writeSegs Locked (s # ss) data = Inl EACCES"
| "writeSegs (Dir es) (s # ss) data =
     (case map_of es s of
        None \<Rightarrow> (if ss = [] then Inr (Dir (es @ [(s, File data)])) else Inl ENOENT)
      | Some c \<Rightarrow>
          (case writeSegs c ss data of
             Inl e \<Rightarrow> Inl e
           | Inr c' \<Rightarrow> Inr (Dir (setEntry s c' es))))"

section \<open>The program state\<close>

text \<open>
  What the program needs from outside: its own directory (\<open>__dirname\<close>), the working
  directory of the process, and the two external transforms, which may throw.
\<close>

record env =
  rootDir :: string
  cwd :: string
  minify :: "string \<Rightarrow> error + string"
  obfuscate :: "string \<Rightarrow> error + string"

text \<open>The lines the program prints, without their wording.\<close>

datatype event =
    LogScanning
  | LogIgnoringDirs "string list"
  | LogIgnoringFiles "string list"
  | LogNoFiles
  | LogFound nat
  | LogBuilding string
  | LogOutput string
  | LogBuildError string error
  | LogBuildComplete
  | LogManifestNotFound string
  | LogManifestUpdated string
  | LogUpdatingHtml nat
  | LogSubstituted string string
  | LogHtmlUpdated string
  | LogHtmlNoChanges string

text \<open>
  The state the program acts on: the file system, the lines printed, and the paths that
  \<open>fs.writeFileSync\<close> has written, in order. A write that stores the content a file
  already has leaves the tree as it was but is a write all the same (the file gets a new
  modification time), so it is the last field that tells whether a file was written.
\<close>

record world =
  fs :: fsnode
  console :: "event list"
  writes :: "string list"

definition say :: "event \<Rightarrow> world \<Rightarrow> world" where
  "say ev w = w\<lparr>console := console w @ [ev]\<rparr>"

definition nodeAt :: "env \<Rightarrow> fsnode \<Rightarrow> string \<Rightarrow> fsnode" where
  "nodeAt env root p = lookupSegs root (resolveSegs (cwd env) p)"

definition existsSync :: "env \<Rightarrow> fsnode \<Rightarrow> string \<Rightarrow> bool" where
  "existsSync env root p = (case nodeAt env root p of Fault _ \<Rightarrow> False | _ \<Rightarrow> True)"

definition readFileSync :: "env \<Rightarrow> fsnode \<Rightarrow> string \<Rightarrow> error + string" where
  "readFileSync env root p =
     (case nodeAt env root p of
        File data \<Rightarrow> Inr data
      | Dir _ \<Rightarrow> Inl EISDIR
      | Locked \<Rightarrow> Inl EISDIR
      | Fault e \<Rightarrow> Inl e)"

definition mkdirSync :: "env \<Rightarrow> fsnode \<Rightarrow> string \<Rightarrow> error + fsnode" where
  "mkdirSync env root p = mkdirSegs root (resolveSegs (cwd env) p)"

definition writeFileSync :: "env \<Rightarrow> fsnode \<Rightarrow> string \<Rightarrow> string \<Rightarrow> error + fsnode" where
  "writeFileSync env root p data = writeSegs root (resolveSegs (cwd env) p) data"

section \<open>Discovery\<close>

definition IGNORE_FILE_PATHS :: "string list" where
  "IGNORE_FILE_PATHS = [''build.ts'', ''build.js'', ''client/bridge.js'']"

definition IGNORE_DIRS :: "string list" where
  "IGNORE_DIRS = [''node_modules'', ''build'']"

definition MANIFEST_FILE :: string where
  "MANIFEST_FILE = ''fxmanifest.lua''"

record BuildResult =
  originalPath :: string
  builtPath :: string

definition relativeToRoot :: "env \<Rightarrow> string \<Rightarrow> string" where
  "relativeToRoot env p = relative (cwd env) (rootDir env) p"

definition shouldIgnoreFile :: "env \<Rightarrow> string \<Rightarrow> bool" where
  "shouldIgnoreFile env filePath =
     (let relativePath = toForwardSlashes (relativeToRoot env filePath)
      in list_ex (\<lambda>ignorePath. relativePath = toForwardSlashes ignorePath) IGNORE_FILE_PATHS)"

text \<open>
  \<open>findJsFiles(dir, fileList)\<close>. The node is the file-system object at \<open>dir\<close>, and the
  second function is the body of \<open>files.forEach\<close> over its entries: \<open>fs.statSync\<close> on
  the entry, the descent into a directory that is neither hidden nor ignored, the push of
  a script that is not ignored. An exception ends the traversal.
\<close>

fun findJsFiles :: "env \<Rightarrow> string \<Rightarrow> fsnode \<Rightarrow> string list \<Rightarrow> error + string list"
  and findJsEntries ::
    "env \<Rightarrow> string \<Rightarrow> (string \<times> fsnode) list \<Rightarrow> string list \<Rightarrow> error + string list" where
  "findJsFiles env dir (Dir files) fileList = findJsEntries env dir files fileList"
| "findJsFiles env dir (File v) fileList = Inl ENOTDIR"
| "findJsFiles env dir Locked fileList = Inl EACCES"
| "findJsFiles env dir (Fault e) fileList = Inl e"
| "findJsEntries env dir [] fileList = Inr fileList"
| "findJsEntries env dir ((file, child) # rest) fileList =
     (case statSync child of
        Inl e \<Rightarrow> Inl e
      | Inr isDirectory \<Rightarrow>
          if isDirectory then
            (if \<not> startsWith file ''.'' \<and> file \<notin> set IGNORE_DIRS then
               (case findJsFiles env (join dir file) child fileList of
                  Inl e \<Rightarrow> Inl e
                | Inr fileList' \<Rightarrow> findJsEntries env dir rest fileList')
             else findJsEntries env dir rest fileList)
          else if endsWith file ''.js'' \<and> \<not> shouldIgnoreFile env (join dir file) then
            findJsEntries env dir rest (fileList @ [join dir file])
          else findJsEntries env dir rest fileList)"

fun findHtmlFiles :: "env \<Rightarrow> string \<Rightarrow> fsnode \<Rightarrow> string list \<Rightarrow> error + string list"
  and findHtmlEntries ::
    "env \<Rightarrow> string \<Rightarrow> (string \<times> fsnode) list \<Rightarrow> string list \<Rightarrow> error + string list" where
  "findHtmlFiles env dir (Dir files) fileList = findHtmlEntries env dir files fileList"
| "findHtmlFiles env dir (File v) fileList = Inl ENOTDIR"
| "findHtmlFiles env dir Locked fileList = Inl EACCES"
| "findHtmlFiles env dir (Fault e) fileList = Inl e"
| "findHtmlEntries env dir [] fileList = Inr fileList"
| "findHtmlEntries env dir ((file, child) # rest) fileList =
     (case statSync child of
        Inl e \<Rightarrow> Inl e
      | Inr isDirectory \<Rightarrow>
          if isDirectory then
            (if \<not> startsWith file ''.'' \<and> file \<notin> set IGNORE_DIRS then
               (case findHtmlFiles env (join dir file) child fileList of
                  Inl e \<Rightarrow> Inl e
                | Inr fileList' \<Rightarrow> findHtmlEntries env dir rest fileList')
             else findHtmlEntries env dir rest fileList)
          else if endsWith file ''.html'' then
            findHtmlEntries env dir rest (fileList @ [join dir file])
          else findHtmlEntries env dir rest fileList)"

section \<open>The transform of one file\<close>

text \<open>
  The body of the \<open>try\<close> block of \<open>buildFile\<close>. It returns the world as the statements
  executed so far have left it, with either the exception that ended it or the result.
\<close>

definition buildFileBody :: "env \<Rightarrow> string \<Rightarrow> world \<Rightarrow> world \<times> (error + BuildResult)" where
  "buildFileBody env filePath w =
     (case readFileSync env (fs w) filePath of
        Inl e \<Rightarrow> (w, Inl e)
      | Inr code \<Rightarrow>
          let dir = dirname filePath;
              fileName = basename filePath;
              buildDir = join dir ''build'';
              outputPath = join buildDir fileName;
              w1 = say (LogBuilding (relativeToRoot env filePath)) w
          in (case minify env code of
                Inl e \<Rightarrow> (w1, Inl e)
              | Inr minified \<Rightarrow>
                  (case obfuscate env minified of
                     Inl e \<Rightarrow> (w1, Inl e)
                   | Inr obfuscated \<Rightarrow>
                       (case (if \<not> existsSync env (fs w1) buildDir
                              then mkdirSync env (fs w1) buildDir else Inr (fs w1)) of
                          Inl e \<Rightarrow> (w1, Inl e)
                        | Inr fs2 \<Rightarrow>
                            (case writeFileSync env fs2 outputPath obfuscated of
                               Inl e \<Rightarrow> (w1\<lparr>fs := fs2\<rparr>, Inl e)
                             | Inr fs3 \<Rightarrow>
                                 (say (LogOutput (relativeToRoot env outputPath))
                                    (w1\<lparr>fs := fs3, writes := writes w1 @ [outputPath]\<rparr>),
                                  Inr \<lparr>originalPath = toForwardSlashes (relativeToRoot env filePath),
                                       builtPath = toForwardSlashes (relativeToRoot env outputPath)\<rparr>))))))"

text \<open>\<open>buildFile\<close>: the \<open>catch\<close> clause reports the exception and returns \<open>null\<close>.\<close>

definition buildFile :: "env \<Rightarrow> string \<Rightarrow> world \<Rightarrow> world \<times> BuildResult option" where
  "buildFile env filePath w =
     (case buildFileBody env filePath w of
        (w', Inl e) \<Rightarrow> (say (LogBuildError filePath e) w', None)
      | (w', Inr result) \<Rightarrow> (w', Some result))"

text \<open>The loop of \<open>main\<close> over the discovered files, with the results pushed so far.\<close>

fun buildAll :: "env \<Rightarrow> string list \<Rightarrow> BuildResult list \<Rightarrow> world \<Rightarrow> world \<times> BuildResult list" where
  "buildAll env [] builtFiles w = (w, builtFiles)"
| "buildAll env (file # rest) builtFiles w =
     (case buildFile env file w of
        (w', None) \<Rightarrow> buildAll env rest builtFiles w'
      | (w', Some result) \<Rightarrow> buildAll env rest (builtFiles @ [result]) w')"

section \<open>The manifest\<close>

definition manifestRegexSource :: "string \<Rightarrow> string" where
  "manifestRegexSource original =
     ''['' @ [squote, dquote] @ '']'' @ escapeRegExp original @ ''['' @ [squote, dquote] @ '']''"

text \<open>The \<open>builtFiles.forEach\<close> of \<open>updateManifest\<close>, on the text of the manifest.\<close>

fun rewriteManifest :: "BuildResult list \<Rightarrow> string \<Rightarrow> error + string" where
  "rewriteManifest [] manifestContent = Inr manifestContent"
| "rewriteManifest (r # rs) manifestContent =
     (case RegExp (manifestRegexSource (originalPath r)) of
        Inl e \<Rightarrow> Inl e
      | Inr regex \<Rightarrow>
          rewriteManifest rs
            (replaceAll regex ([squote] @ builtPath r @ [squote]) manifestContent))"

definition updateManifest :: "env \<Rightarrow> BuildResult list \<Rightarrow> world \<Rightarrow> error + world" where
  "updateManifest env builtFiles w =
     (let manifestPath = join (rootDir env) MANIFEST_FILE
      in if \<not> existsSync env (fs w) manifestPath then
           Inr (say (LogManifestNotFound MANIFEST_FILE) w)
         else
           (case readFileSync env (fs w) manifestPath of
              Inl e \<Rightarrow> Inl e
            | Inr manifestContent \<Rightarrow>
                (case rewriteManifest builtFiles manifestContent of
                   Inl e \<Rightarrow> Inl e
                 | Inr manifestContent' \<Rightarrow>
                     (case writeFileSync env (fs w) manifestPath manifestContent' of
                        Inl e \<Rightarrow> Inl e
                      | Inr fs' \<Rightarrow>
                          Inr (say (LogManifestUpdated MANIFEST_FILE)
                                 (w\<lparr>fs := fs', writes := writes w @ [manifestPath]\<rparr>))))))"

section \<open>The markup files\<close>

text \<open>
  The state of the rewriting of one markup file: its text, the \<open>updated\<close> flag and the
  lines printed so far.
\<close>

record rewriting =
  htmlContent :: string
  updated :: bool
  printed :: "event list"

definition attrRegexSource :: "string \<Rightarrow> string \<Rightarrow> string" where
  "attrRegexSource attr original =
     attr @ ''=['' @ [dquote, squote] @ '']'' @ escapeRegExp original @
     ''['' @ [dquote, squote] @ '']''"

text \<open>One attribute (\<open>src\<close> or \<open>href\<close>) for one pair of \<open>pathsToTry\<close>.\<close>

definition tryAttr :: "string \<Rightarrow> string \<Rightarrow> string \<Rightarrow> rewriting \<Rightarrow> error + rewriting" where
  "tryAttr attr original built st =
     (case RegExp (attrRegexSource attr original) of
        Inl e \<Rightarrow> Inl e
      | Inr regex \<Rightarrow>
          if regexTest regex (htmlContent st) then
            Inr \<lparr>htmlContent =
                   replaceAll regex (attr @ ''='' @ [dquote] @ built @ [dquote]) (htmlContent st),
                 updated = True,
                 printed = printed st @ [LogSubstituted original built]\<rparr>
          else Inr st)"

text \<open>The body of \<open>pathsToTry.forEach\<close>: the \<open>src\<close> attributes, then the \<open>href\<close> ones.\<close>

definition tryPath :: "string \<times> string \<Rightarrow> rewriting \<Rightarrow> error + rewriting" where
  "tryPath p st =
     (case tryAttr ''src'' (fst p) (snd p) st of
        Inl e \<Rightarrow> Inl e
      | Inr st' \<Rightarrow> tryAttr ''href'' (fst p) (snd p) st')"

fun tryPaths :: "(string \<times> string) list \<Rightarrow> rewriting \<Rightarrow> error + rewriting" where
  "tryPaths [] st = Inr st"
| "tryPaths (p # ps) st =
     (case tryPath p st of Inl e \<Rightarrow> Inl e | Inr st' \<Rightarrow> tryPaths ps st')"

text \<open>
  \<open>pathsToTry\<close> for one build result: the path relative to the root, then the path
  relative to the directory of the markup file.
\<close>

definition pathsToTry :: "env \<Rightarrow> string \<Rightarrow> BuildResult \<Rightarrow> (string \<times> string) list" where
  "pathsToTry env htmlDir r =
     (let absoluteOriginalPath = join (rootDir env) (originalPath r);
          absoluteBuiltPath = join (rootDir env) (builtPath r);
          relativeOriginalPath = toForwardSlashes (relative (cwd env) htmlDir absoluteOriginalPath);
          relativeBuiltPath = toForwardSlashes (relative (cwd env) htmlDir absoluteBuiltPath)
      in [(originalPath r, builtPath r), (relativeOriginalPath, relativeBuiltPath)])"

text \<open>The \<open>builtFiles.forEach\<close> inside \<open>updateHtmlFiles\<close>, for one markup file.\<close>

fun rewriteHtml :: "env \<Rightarrow> string \<Rightarrow> BuildResult list \<Rightarrow> rewriting \<Rightarrow> error + rewriting" where
  "rewriteHtml env htmlDir [] st = Inr st"
| "rewriteHtml env htmlDir (r # rs) st =
     (case tryPaths (pathsToTry env htmlDir r) st of
        Inl e \<Rightarrow> Inl e
      | Inr st' \<Rightarrow> rewriteHtml env htmlDir rs st')"

text \<open>The body of \<open>htmlFiles.forEach\<close>: read, rewrite, and write back if \<open>updated\<close>.\<close>

definition updateHtmlFile :: "env \<Rightarrow> BuildResult list \<Rightarrow> string \<Rightarrow> world \<Rightarrow> error + world" where
  "updateHtmlFile env builtFiles htmlPath w =
     (case readFileSync env (fs w) htmlPath of
        Inl e \<Rightarrow> Inl e
      | Inr content \<Rightarrow>
          (case rewriteHtml env (dirname htmlPath) builtFiles
                  \<lparr>htmlContent = content, updated = False, printed = []\<rparr> of
             Inl e \<Rightarrow> Inl e
           | Inr st \<Rightarrow>
               let w1 = w\<lparr>console := console w @ printed st\<rparr>
               in if updated st then
                    (case writeFileSync env (fs w1) htmlPath (htmlContent st) of
                       Inl e \<Rightarrow> Inl e
                     | Inr fs' \<Rightarrow>
                         Inr (say (LogHtmlUpdated (relativeToRoot env htmlPath))
                                (w1\<lparr>fs := fs', writes := writes w1 @ [htmlPath]\<rparr>)))
                  else Inr (say (LogHtmlNoChanges (relativeToRoot env htmlPath)) w1)))"

fun updateHtmlEach :: "env \<Rightarrow> BuildResult list \<Rightarrow> string list \<Rightarrow> world \<Rightarrow> error + world" where
  "updateHtmlEach env builtFiles [] w = Inr w"
| "updateHtmlEach env builtFiles (htmlPath # rest) w =
     (case updateHtmlFile env builtFiles htmlPath w of
        Inl e \<Rightarrow> Inl e
      | Inr w' \<Rightarrow> updateHtmlEach env builtFiles rest w')"

definition updateHtmlFiles :: "env \<Rightarrow> BuildResult list \<Rightarrow> world \<Rightarrow> error + world" where
  "updateHtmlFiles env builtFiles w =
     (case findHtmlFiles env (rootDir env) (nodeAt env (fs w) (rootDir env)) [] of
        Inl e \<Rightarrow> Inl e
      | Inr htmlFiles \<Rightarrow>
          if length htmlFiles = 0 then Inr w
          else updateHtmlEach env builtFiles htmlFiles
                 (say (LogUpdatingHtml (length htmlFiles)) w))"

section \<open>The orchestrator\<close>

text \<open>
  \<open>main\<close>. An error value is an exception that nothing catches: it ends the run.
\<close>

definition main :: "env \<Rightarrow> world \<Rightarrow> error + world" where
  "main env w =
     (let w1 = say (LogIgnoringFiles IGNORE_FILE_PATHS)
                 (say (LogIgnoringDirs IGNORE_DIRS) (say LogScanning w))
      in case findJsFiles env (rootDir env) (nodeAt env (fs w1) (rootDir env)) [] of
           Inl e \<Rightarrow> Inl e
         | Inr jsFiles \<Rightarrow>
             if length jsFiles = 0 then Inr (say LogNoFiles w1)
             else
               (case buildAll env jsFiles [] (say (LogFound (length jsFiles)) w1) of
                  (w2, builtFiles) \<Rightarrow>
                    let w3 = say LogBuildComplete w2
                    in if length builtFiles > 0 then
                         (case updateManifest env builtFiles w3 of
                            Inl e \<Rightarrow> Inl e
                          | Inr w4 \<Rightarrow> updateHtmlFiles env builtFiles w4)
                       else Inr w3))"

section \<open>The substitution in the words of the specification\<close>

text \<open>
  A reference to a path in a text: the characters \<open>a\<close> (an attribute name with its equals
  sign, or nothing in the manifest), a quote character, the path, a quote character.
  The two quote characters need not be the same.
\<close>

definition quotedAt :: "string \<Rightarrow> string \<Rightarrow> bool" where
  "quotedAt p s =
     (case s of
        [] \<Rightarrow> False
      | q # r \<Rightarrow> isQuote q \<and> prefix p r \<and>
          (case drop (length p) r of [] \<Rightarrow> False | q' # _ \<Rightarrow> isQuote q'))"

definition refAt :: "string \<Rightarrow> string \<Rightarrow> string \<Rightarrow> bool" where
  "refAt a p s = (prefix a s \<and> quotedAt p (drop (length a) s))"

text \<open>
  The text with every reference to \<open>p\<close> replaced by \<open>b\<close> between two quote characters
  \<open>q\<close>, scanning from the left; a reference that begins inside the reference just
  replaced is not seen.
\<close>

function substRef :: "string \<Rightarrow> char \<Rightarrow> string \<Rightarrow> string \<Rightarrow> string \<Rightarrow> string" where
  "substRef a q p b [] = []"
| "substRef a q p b (c # cs) =
     (if refAt a p (c # cs) then
        a @ [q] @ b @ [q] @ substRef a q p b (drop (length a + length p + 2) (c # cs))
      else c # substRef a q p b cs)"
  by pat_completeness auto
termination
  by (relation "measure (\<lambda>(a, q, p, b, s). length s)") auto

text \<open>The pattern of a reference, with the character class of the quotes.\<close>

definition refPattern :: "char list \<Rightarrow> string \<Rightarrow> string \<Rightarrow> regex" where
  "refPattern qs a p = map Lit a @ [OneOf qs] @ map Lit p @ [OneOf qs]"

section \<open>Texts cut at their quote characters\<close>

text \<open>
  To reason about references, a text is cut at its quote characters into pieces without
  quote characters. A reference to \<open>p\<close> after \<open>a\<close> is a piece that ends with \<open>a\<close>, followed
  by the piece \<open>p\<close>, followed by one more piece (so that the closing quote is there).
  \<open>substPieces\<close> is the substitution on the pieces; \<open>refInPieces\<close> and \<open>doubledPieces\<close>
  test for a reference and for two references to \<open>p\<close> that share a quote character.
\<close>

fun pieces :: "string \<Rightarrow> string list" where
  "pieces [] = [[]]"
| "pieces (c # cs) =
     (if isQuote c then [] # pieces cs
      else (case pieces cs of [] \<Rightarrow> [[c]] | x # xs \<Rightarrow> (c # x) # xs))"

fun substPieces :: "string \<Rightarrow> string \<Rightarrow> string \<Rightarrow> string list \<Rightarrow> string list" where
  "substPieces a p b (x # y # z # ws) =
     (if suffix a x \<and> y = p then x # b # substPieces a p b (z # ws)
      else x # substPieces a p b (y # z # ws))"
| "substPieces a p b ws = ws"

fun refInPieces :: "string \<Rightarrow> string \<Rightarrow> string list \<Rightarrow> bool" where
  "refInPieces a p (x # y # z # ws) = ((suffix a x \<and> y = p) \<or> refInPieces a p (y # z # ws))"
| "refInPieces a p ws = False"

fun doubledPieces :: "string \<Rightarrow> string list \<Rightarrow> bool" where
  "doubledPieces p (x # y # z # w # ws) = ((y = p \<and> z = p) \<or> doubledPieces p (y # z # w # ws))"
| "doubledPieces p ws = False"

text \<open>Is there a reference to \<open>p\<close> after \<open>a\<close> anywhere in the text?\<close>

fun hasRef :: "string \<Rightarrow> string \<Rightarrow> string \<Rightarrow> bool" where
  "hasRef a p [] = False"
| "hasRef a p (c # cs) = (refAt a p (c # cs) \<or> hasRef a p cs)"

text \<open>A string without quote characters.\<close>

definition quoteFree :: "string \<Rightarrow> bool" where
  "quoteFree s = (\<forall>c\<in>set s. \<not> isQuote c)"

text \<open>
  Two references to \<open>p\<close> in a row, the closing quote of the first being the opening
  quote of the second.
\<close>

definition doubledAt :: "string \<Rightarrow> string \<Rightarrow> bool" where
  "doubledAt p s = (quotedAt p s \<and> quotedAt p (drop (Suc (length p)) s))"

fun hasDoubled :: "string \<Rightarrow> string \<Rightarrow> bool" where
  "hasDoubled p [] = False"
| "hasDoubled p (c # cs) = (doubledAt p (c # cs) \<or> hasDoubled p cs)"

text \<open>One mapping applied to the text of the manifest, in the words of the specification.\<close>

definition substStep :: "BuildResult \<Rightarrow> string \<Rightarrow> string" where
  "substStep r content = substRef [] squote (originalPath r) (builtPath r) content"

text \<open>No \<open>src\<close> or \<open>href\<close> attribute of the text holds one of the paths.\<close>

definition settledFor :: "string set \<Rightarrow> string \<Rightarrow> bool" where
  "settledFor D s = (\<forall>orig\<in>D. \<not> hasRef ''src='' orig s \<and> \<not> hasRef ''href='' orig s)"

section \<open>Names for the statements\<close>

text \<open>The \<open>buildDir\<close> and the \<open>outputPath\<close> that \<open>buildFile\<close> computes for a file.\<close>

definition buildDirFor :: "string \<Rightarrow> string" where
  "buildDirFor filePath = join (dirname filePath) ''build''"

definition outputPathFor :: "string \<Rightarrow> string" where
  "outputPathFor filePath = join (buildDirFor filePath) (basename filePath)"

text \<open>
  Does the text hold a \<open>src\<close> or \<open>href\<close> attribute whose value is a path? This is the
  test \<open>updateHtmlFiles\<close> makes before it replaces; \<open>mentions\<close> asks it for every
  build result and both of its forms.
\<close>

definition refersTo :: "string \<Rightarrow> string \<Rightarrow> string \<Rightarrow> bool" where
  "refersTo attr original content =
     (case RegExp (attrRegexSource attr original) of
        Inl _ \<Rightarrow> False
      | Inr regex \<Rightarrow> regexTest regex content)"

definition mentions :: "env \<Rightarrow> string \<Rightarrow> BuildResult list \<Rightarrow> string \<Rightarrow> bool" where
  "mentions env htmlDir builtFiles content =
     list_ex (\<lambda>r. list_ex (\<lambda>p. refersTo ''src'' (fst p) content \<or> refersTo ''href'' (fst p) content)
                    (pathsToTry env htmlDir r)) builtFiles"

text \<open>
  Lines that report a substitution, and what the tests of one or more patterns make of
  the state of a rewriting: the flag is raised exactly if a test succeeded, a state
  whose tests all failed is the state before, and the lines printed are substitution
  lines, one at least exactly if a test succeeded.
\<close>

definition substitutionLines :: "event list \<Rightarrow> bool" where
  "substitutionLines evs =
     list_all (\<lambda>ev. case ev of LogSubstituted _ _ \<Rightarrow> True | _ \<Rightarrow> False) evs"

definition advances :: "rewriting \<Rightarrow> rewriting \<Rightarrow> bool \<Rightarrow> bool" where
  "advances st st' matched =
     ((updated st' \<longleftrightarrow> updated st \<or> matched) \<and>
      (\<not> matched \<longrightarrow> st' = st) \<and>
      (\<exists>evs. printed st' = printed st @ evs \<and> substitutionLines evs \<and>
         (evs \<noteq> [] \<longleftrightarrow> matched)))"

text \<open>
  The name of a directory entry is not empty, holds no separator and is neither \<open>.\<close>
  nor \<open>..\<close>. \<open>absPath\<close> writes an absolute path from its segments.
\<close>

definition niceName :: "string \<Rightarrow> bool" where
  "niceName s = (s \<noteq> [] \<and> slash \<notin> set s \<and> s \<noteq> ''.'' \<and> s \<noteq> ''..'')"

definition absPath :: "string list \<Rightarrow> string" where
  "absPath segs = slash # joinWith [slash] segs"

text \<open>A tree whose entries all have such names.\<close>

fun wfTree :: "fsnode \<Rightarrow> bool" and wfEntries :: "(string \<times> fsnode) list \<Rightarrow> bool" where
  "wfTree (Dir es) = wfEntries es"
| "wfTree (File _) = True"
| "wfTree Locked = True"
| "wfTree (Fault _) = True"
| "wfEntries [] = True"
| "wfEntries ((name, child) # rest) = (niceName name \<and> wfTree child \<and> wfEntries rest)"

text \<open>
  A path that discovery may return from the directory \<open>absPath segs\<close>: a script that
  is not ignored, below directories that are neither hidden nor ignored.
\<close>

definition located :: "env \<Rightarrow> string list \<Rightarrow> string \<Rightarrow> bool" where
  "located env segs p =
     (\<exists>chain name. p = absPath (segs @ chain @ [name]) \<and>
        (\<forall>s\<in>set (chain @ [name]). niceName s) \<and>
        (\<forall>d\<in>set chain. \<not> startsWith d ''.'' \<and> d \<notin> set IGNORE_DIRS) \<and>
        endsWith name ''.js'' \<and> \<not> shouldIgnoreFile env p)"

section \<open>Scenarios\<close>

text \<open>
  A resource directory \<open>/res\<close> for the examples. The stand-ins for the two external
  transforms mark their input; the minifier rejects one text.
\<close>

definition demoEnv :: env where
  "demoEnv = \<lparr>rootDir = ''/res'', cwd = ''/res'',
      minify = (\<lambda>code. if code = ''('' then Inl MinifyError else Inr (''min:'' @ code)),
      obfuscate = (\<lambda>code. Inr (''obf:'' @ code))\<rparr>"

definition bareTree :: fsnode where
  "bareTree = Dir [(''res'', Dir [(''broken.js'', File ''(''), (''main.js'', File ''f()'')])]"

definition demoWorld :: world where
  "demoWorld = \<lparr>fs = bareTree, console = [], writes = []\<rparr>"

definition demoBuilt :: "world \<times> BuildResult list" where
  "demoBuilt = buildAll demoEnv [''/res/broken.js'', ''/res/main.js''] []
        (say (LogFound 2)
          (say (LogIgnoringFiles IGNORE_FILE_PATHS)
            (say (LogIgnoringDirs IGNORE_DIRS) (say LogScanning demoWorld))))"

definition pageWorld :: "string \<Rightarrow> world" where
  "pageWorld content =
     \<lparr>fs = Dir [(''res'', Dir [(''main.js'', File ''f()''), (''index.html'', File content)])],
      console = [], writes = []\<rparr>"

definition demoResults :: "BuildResult list" where
  "demoResults = [\<lparr>originalPath = ''main.js'', builtPath = ''build/main.js''\<rparr>]"

definition demoPage :: string where
  "demoPage = ''<script src='' @ [dquote] @ ''main.js'' @ [dquote] @ ''></script>''"


definition clutteredTree :: fsnode where
  "clutteredTree =
     Dir [(''.git'', Dir [(''hook.js'', File ''h()'')]),
          (''build.js'', File ''b()''),
          (''client'', Dir [(''bridge.js'', File ''c()''), (''ui.js'', File ''u()'')]),
          (''node_modules'', Locked),
          (''notes.txt'', File ''n''),
          (''web'', Dir [(''build'', Dir [(''script.js'', File ''o()'')]),
                         (''script.js'', File ''s()'')])]"

definition nestedWorld :: world where
  "nestedWorld =
     \<lparr>fs = Dir [(''res'', Dir [(''main.js'', File ''f()''),
                               (''web'', Dir [(''script.js'', File ''g()'')])])],
      console = [], writes = []\<rparr>"

text \<open>
  The scenario of the specification: \<open>main.js\<close> and \<open>web/script.js\<close> are built; the
  manifest and a page at the root refer to them.
\<close>

definition scenarioResults :: "BuildResult list" where
  "scenarioResults =
     [\<lparr>originalPath = ''main.js'', builtPath = ''build/main.js''\<rparr>,
      \<lparr>originalPath = ''web/script.js'', builtPath = ''web/build/script.js''\<rparr>]"

definition scenarioManifest :: string where
  "scenarioManifest =
     ''client_scripts { '' @ [squote] @ ''main.js'' @ [squote] @ '', '' @
     [dquote] @ ''web/script.js'' @ [dquote] @ '' }''"

definition scenarioPage :: string where
  "scenarioPage = ''<script src='' @ [dquote] @ ''web/script.js'' @ [dquote] @ ''></script>''"

definition rewrittenPage :: rewriting where
  "rewrittenPage =
     \<lparr>htmlContent = ''<script src='' @ [dquote] @ ''web/build/script.js'' @ [dquote] @ ''></script>'',
      updated = True,
      printed = [LogSubstituted ''web/script.js'' ''web/build/script.js'']\<rparr>"

text \<open>
  On POSIX a backslash and a quote character are characters of a file name like any
  other. A script whose name holds a backslash; and a script whose name holds two
  double quotes, with a page in a directory beside it whose text has the attribute
  \<open>src="a.js"\<close> three times in a row.
\<close>

definition backslashName :: string where
  "backslashName = ''a'' @ [backslash] @ ''b.js''"

definition backslashWorld :: world where
  "backslashWorld =
     \<lparr>fs = Dir [(''res'', Dir [(backslashName, File ''f()'')])], console = [], writes = []\<rparr>"

definition quotedName :: string where
  "quotedName = ''a.js'' @ [dquote] @ ''src='' @ [dquote] @ ''a.js''"

definition quotedResult :: BuildResult where
  "quotedResult = \<lparr>originalPath = quotedName, builtPath = ''build/'' @ quotedName\<rparr>"

definition srcAttr :: "string \<Rightarrow> string" where
  "srcAttr v = ''src='' @ [dquote] @ v @ [dquote]"

definition quotedPage :: string where
  "quotedPage = srcAttr ''a.js'' @ srcAttr ''a.js'' @ srcAttr ''a.js''"

definition quotedWorld :: world where
  "quotedWorld =
     \<lparr>fs = Dir [(''res'', Dir [(quotedName, File ''f()''),
                               (''web'', Dir [(''page.html'', File quotedPage)])])],
      console = [], writes = []\<rparr>"

section \<open>Patterns built from escaped paths\<close>

lemma quotedAt_iff:
  "quotedAt p s \<longleftrightarrow> (\<exists>q1 q2 rest. isQuote q1 \<and> isQuote q2 \<and> s = q1 # p @ q2 # rest)"
proof
  assume "quotedAt p s"
  then obtain q r where s: "s = q # r" and q: "isQuote q" and pr: "prefix p r"
    and d: "(case drop (length p) r of [] \<Rightarrow> False | q' # _ \<Rightarrow> isQuote q')"
    by (auto simp: quotedAt_def split: list.splits)
  from pr obtain t where r: "r = p @ t" by (auto simp: prefix_def)
  with d obtain q' u where "t = q' # u" "isQuote q'" by (auto split: list.splits)
  with s q r show "\<exists>q1 q2 rest. isQuote q1 \<and> isQuote q2 \<and> s = q1 # p @ q2 # rest" by auto
next
  assume "\<exists>q1 q2 rest. isQuote q1 \<and> isQuote q2 \<and> s = q1 # p @ q2 # rest"
  then show "quotedAt p s" by (auto simp: quotedAt_def)
qed

lemma refAt_iff:
  "refAt a p s \<longleftrightarrow> (\<exists>q1 q2 rest. isQuote q1 \<and> isQuote q2 \<and> s = a @ q1 # p @ q2 # rest)"
  by (auto simp: refAt_def quotedAt_iff prefix_def)

lemma matchesAt_Lit:
  "matchesAt (map Lit a @ re) s \<longleftrightarrow> (\<exists>rest. s = a @ rest \<and> matchesAt re rest)"
proof (induction a arbitrary: s)
  case Nil
  then show ?case by simp
next
  case (Cons x a)
  then show ?case by (cases s) auto
qed

lemma matchesAt_OneOf:
  "matchesAt (OneOf ms # re) s \<longleftrightarrow> (\<exists>c rest. s = c # rest \<and> c \<in> set ms \<and> matchesAt re rest)"
  by (cases s) auto

lemma matchesAt_refPattern:
  "set qs = {squote, dquote} \<Longrightarrow> matchesAt (refPattern qs a p) s \<longleftrightarrow> refAt a p s"
  unfolding refPattern_def refAt_iff
  by (simp add: matchesAt_Lit matchesAt_OneOf isQuote_def) blast

lemma backslash_special: "backslash \<in> set regexSpecials"
  by (simp add: regexSpecials_def)

lemma bracket_special: "CHR ''['' \<in> set regexSpecials"
  by (simp add: regexSpecials_def)

lemma parseRegExp_escape:
  "parseRegExp (escapeRegExp p @ rest) = map_option ((@) (map Lit p)) (parseRegExp rest)"
proof (induction p)
  case Nil
  then show ?case by (simp add: escapeRegExp_def option.map_ident)
next
  case (Cons c p)
  have step: "parseRegExp (escapeRegExp (c # p) @ rest) =
      map_option (Cons (Lit c)) (parseRegExp (escapeRegExp p @ rest))"
  proof (cases "c \<in> set regexSpecials")
    case True
    then show ?thesis by (simp add: escapeRegExp_def)
  next
    case False
    then have "c \<noteq> backslash" "c \<noteq> CHR ''[''"
      using backslash_special bracket_special by auto
    with False show ?thesis by (simp add: escapeRegExp_def)
  qed
  show ?case unfolding step Cons.IH by (simp add: option.map_comp comp_def)
qed

lemma parseRegExp_plain:
  "set a \<inter> set regexSpecials = {} \<Longrightarrow>
   parseRegExp (a @ rest) = map_option ((@) (map Lit a)) (parseRegExp rest)"
proof (induction a)
  case Nil
  then show ?case by (simp add: option.map_ident)
next
  case (Cons c a)
  then have "c \<notin> set regexSpecials" by auto
  then have "c \<noteq> backslash" "c \<noteq> CHR ''[''"
    using backslash_special bracket_special by auto
  with Cons \<open>c \<notin> set regexSpecials\<close> show ?case
    by (simp add: option.map_comp comp_def)
qed

lemma parseRegExp_quoteClass:
  "isQuote x \<Longrightarrow> isQuote y \<Longrightarrow> parseRegExp (CHR ''['' # x # y # CHR '']'' # rest) = map_option (Cons (OneOf [x, y])) (parseRegExp rest)"
  by (auto simp: isQuote_def squote_def dquote_def backslash_def)

lemma RegExp_manifest: "RegExp (manifestRegexSource p) = Inr (refPattern [squote, dquote] [] p)"
  by (simp add: RegExp_def manifestRegexSource_def refPattern_def parseRegExp_escape
      parseRegExp_quoteClass isQuote_def del: parseRegExp.simps(2))

lemma RegExp_attr:
  "set attr \<inter> set regexSpecials = {} \<Longrightarrow>
   RegExp (attrRegexSource attr p) = Inr (refPattern [dquote, squote] (attr @ ''='') p)"
proof -
  assume a: "set attr \<inter> set regexSpecials = {}"
  have "set (attr @ ''='') \<inter> set regexSpecials = {}"
    using a by (simp add: regexSpecials_def backslash_def)
  then have "parseRegExp ((attr @ ''='') @ rest) = map_option ((@) (map Lit (attr @ ''=''))) (parseRegExp rest)" for rest
    by (rule parseRegExp_plain)
  then show ?thesis
    by (simp add: RegExp_def attrRegexSource_def refPattern_def parseRegExp_escape
      parseRegExp_quoteClass isQuote_def del: parseRegExp.simps(2))
qed

lemma expandReplacement_plain:
  "dollar \<notin> set template \<Longrightarrow> expandReplacement template m pre post = template"
  by (induction template m pre post rule: expandReplacement.induct) auto

lemma length_refPattern: "length (refPattern qs a p) = length a + length p + 2"
  by (simp add: refPattern_def)

lemma refPattern_nonempty: "refPattern qs a p \<noteq> []"
  by (simp add: refPattern_def)

lemma replaceFrom_substRef:
  assumes "dollar \<notin> set (a @ [q] @ b @ [q])" and qs: "set qs = {squote, dquote}"
  shows "replaceFrom (refPattern qs a p) (a @ [q] @ b @ [q]) pre s = substRef a q p b s"
proof (induction s arbitrary: pre rule: length_induct)
  case (1 s)
  show ?case
  proof (cases s)
    case Nil
    then show ?thesis by (simp add: refPattern_nonempty)
  next
    case (Cons c cs)
    show ?thesis
    proof (cases "refAt a p s")
      case True
      have "length (drop (length a + length p + 2) s) < length s"
        using Cons by simp
      with 1 have "replaceFrom (refPattern qs a p) (a @ [q] @ b @ [q]) (pre @ take (length a + length p + 2) s) (drop (length a + length p + 2) s)
         = substRef a q p b (drop (length a + length p + 2) s)" by blast
      with True Cons show ?thesis
        using expandReplacement_plain[OF assms(1)]
        by (simp add: refPattern_nonempty matchesAt_refPattern[OF qs] length_refPattern)
    next
      case False
      have "replaceFrom (refPattern qs a p) (a @ [q] @ b @ [q]) (pre @ [c]) cs = substRef a q p b cs"
        using 1 Cons by simp
      with False Cons show ?thesis
        by (simp add: refPattern_nonempty matchesAt_refPattern[OF qs])
    qed
  qed
qed


lemma substRef_skip:
  "\<forall>c\<in>set pre. \<not> isQuote c \<Longrightarrow> substRef [] q p b (pre @ s) = pre @ substRef [] q p b s"
  by (induction pre) (auto simp: refAt_def quotedAt_def)






section \<open>The world and the batch\<close>

lemma fs_say [simp]: "fs (say ev w) = fs w"
  by (simp add: say_def)

lemma console_say [simp]: "console (say ev w) = console w @ [ev]"
  by (simp add: say_def)

lemma writes_say [simp]: "writes (say ev w) = writes w"
  by (simp add: say_def)

lemma buildAll_append:
  "buildAll env (xs @ ys) builtFiles w =
     (case buildAll env xs builtFiles w of (w', builtFiles') \<Rightarrow> buildAll env ys builtFiles' w')"
  by (induction xs arbitrary: builtFiles w) (auto split: prod.splits option.splits)

lemma buildFileBody_raises:
  assumes "readFileSync env (fs w) file = Inl e \<or>
     (\<exists>code. readFileSync env (fs w) file = Inr code \<and>
        (minify env code = Inl e \<or>
         (\<exists>minified. minify env code = Inr minified \<and>
            (obfuscate env minified = Inl e \<or>
             (\<exists>obfuscated. obfuscate env minified = Inr obfuscated \<and>
                ((\<not> existsSync env (fs w) (buildDirFor file) \<and>
                  mkdirSync env (fs w) (buildDirFor file) = Inl e) \<or>
                 (\<exists>fs2. (if \<not> existsSync env (fs w) (buildDirFor file)
                          then mkdirSync env (fs w) (buildDirFor file) else Inr (fs w)) = Inr fs2 \<and>
                        writeFileSync env fs2 (outputPathFor file) obfuscated = Inl e)))))))"
  shows "\<exists>w'. buildFileBody env file w = (w', Inl e)"
  using assms
  by (auto simp: buildFileBody_def Let_def buildDirFor_def outputPathFor_def split: sum.splits)

section \<open>Markup files without a reference\<close>

lemma src_plain: "set ''src'' \<inter> set regexSpecials = {}"
  by (simp add: regexSpecials_def backslash_def)

lemma href_plain: "set ''href'' \<inter> set regexSpecials = {}"
  by (simp add: regexSpecials_def backslash_def)

lemma tryAttr_no_match:
  assumes "attr = ''src'' \<or> attr = ''href''" and "\<not> refersTo attr original (htmlContent st)"
  shows "tryAttr attr original built st = Inr st"
  using assms src_plain href_plain
  by (auto simp: tryAttr_def refersTo_def RegExp_attr)

lemma tryPath_no_match:
  assumes "\<not> refersTo ''src'' (fst p) (htmlContent st)"
    and "\<not> refersTo ''href'' (fst p) (htmlContent st)"
  shows "tryPath p st = Inr st"
  using assms by (simp add: tryPath_def tryAttr_no_match)

lemma tryPaths_no_match:
  assumes "\<not> list_ex (\<lambda>p. refersTo ''src'' (fst p) (htmlContent st) \<or>
                          refersTo ''href'' (fst p) (htmlContent st)) ps"
  shows "tryPaths ps st = Inr st"
  using assms by (induction ps) (auto simp: tryPath_no_match)

lemma rewriteHtml_no_match:
  assumes "\<not> mentions env htmlDir builtFiles (htmlContent st)"
  shows "rewriteHtml env htmlDir builtFiles st = Inr st"
  using assms unfolding mentions_def
  by (induction builtFiles) (auto simp: tryPaths_no_match)

section \<open>Paths written from segments\<close>

lemma splitOn_nonempty: "splitOn d s \<noteq> []"
  by (induction s) (auto split: list.splits)

lemma splitOn_plain: "d \<notin> set s \<Longrightarrow> splitOn d s = [s]"
  by (induction s) auto

lemma splitOn_append:
  "d \<notin> set s \<Longrightarrow> splitOn d (s @ d # rest) = s # splitOn d rest"
  by (induction s) auto

lemma joinWith_snoc:
  "segs \<noteq> [] \<Longrightarrow> joinWith sep (segs @ [x]) = joinWith sep segs @ sep @ x"
  by (induction sep segs rule: joinWith.induct) auto

lemma joinWith_Cons:
  "segs \<noteq> [] \<Longrightarrow> joinWith sep (x # segs) = x @ sep @ joinWith sep segs"
  by (cases segs) auto

lemma splitOn_joinWith:
  "segs \<noteq> [] \<Longrightarrow> \<forall>s\<in>set segs. d \<notin> set s \<Longrightarrow> splitOn d (joinWith [d] segs) = segs"
proof (induction segs)
  case Nil
  then show ?case by simp
next
  case (Cons x segs)
  show ?case
  proof (cases segs)
    case Nil
    with Cons.prems show ?thesis by (simp add: splitOn_plain)
  next
    case (Cons y ys)
    with Cons.prems Cons.IH show ?thesis
      using splitOn_append[of d x "joinWith [d] (y # ys)"] by simp
  qed
qed

lemma normalizeSegs_nice:
  "\<forall>s\<in>set segs. s \<noteq> [] \<and> s \<noteq> ''.'' \<and> s \<noteq> ''..'' \<Longrightarrow>
   normalizeSegs allow res segs = res @ segs"
  by (induction segs arbitrary: res) auto

lemma niceName_plain: "niceName s \<Longrightarrow> s \<noteq> [] \<and> s \<noteq> ''.'' \<and> s \<noteq> ''..''"
  by (simp add: niceName_def)

lemma splitOn_absPath:
  assumes "\<forall>s\<in>set segs. niceName s"
  shows "normalizeSegs allow [] (splitOn slash (absPath segs)) = segs"
proof (cases segs)
  case Nil
  then show ?thesis by (simp add: absPath_def)
next
  case (Cons x xs)
  have "splitOn slash (joinWith [slash] segs) = segs"
    using assms Cons by (intro splitOn_joinWith) (auto simp: niceName_def)
  then have "splitOn slash (absPath segs) = [] # segs"
    by (simp add: absPath_def)
  moreover have "normalizeSegs allow [] segs = [] @ segs"
    using assms by (intro normalizeSegs_nice) (auto simp: niceName_def)
  ultimately show ?thesis by simp
qed

lemma isAbsolute_absPath: "isAbsolute (absPath segs)"
  by (simp add: isAbsolute_def absPath_def)

lemma resolveSegs_absPath:
  "\<forall>s\<in>set segs. niceName s \<Longrightarrow> resolveSegs wd (absPath segs) = segs"
  by (simp add: resolveSegs_def isAbsolute_absPath splitOn_absPath)




lemma joinWith_nonempty:
  "x \<noteq> [] \<Longrightarrow> joinWith sep (segs @ [x]) \<noteq> []"
  by (induction sep segs rule: joinWith.induct) auto

lemma last_joinWith:
  "x \<noteq> [] \<Longrightarrow> last (joinWith sep (segs @ [x])) = last x"
proof (induction sep segs rule: joinWith.induct)
  case (3 sep xa y ys)
  have "joinWith sep ((y # ys) @ [x]) \<noteq> []"
    using 3 by (intro joinWith_nonempty)
  with 3 show ?case by simp
qed auto

lemma niceName_last: "niceName name \<Longrightarrow> last name \<noteq> slash"
proof
  assume n: "niceName name" and l: "last name = slash"
  then have "name \<noteq> []" by (simp add: niceName_def)
  then have "last name \<in> set name" by (rule last_in_set)
  with n l show False by (simp add: niceName_def)
qed

lemma absPath_snoc_eq:
  "absPath segs @ [slash] @ name =
     (if segs = [] then slash # slash # name else absPath (segs @ [name]))"
  by (simp add: absPath_def joinWith_snoc)

lemma join_absPath:
  assumes segs: "\<forall>s\<in>set segs. niceName s" and name: "niceName name"
  shows "join (absPath segs) name = absPath (segs @ [name])"
proof -
  let ?p = "absPath segs @ [slash] @ name"
  have ne: "name \<noteq> []" and ls: "last name \<noteq> slash"
    using name niceName_last by (auto simp: niceName_def)
  have nice: "\<forall>s\<in>set (segs @ [name]). niceName s"
    using segs name by simp
  have split: "normalizeSegs False [] (splitOn slash ?p) = segs @ [name]"
  proof (cases "segs = []")
    case True
    have "slash \<notin> set name" using name by (simp add: niceName_def)
    then have "splitOn slash name = [name]" by (rule splitOn_plain)
    then show ?thesis using True name by (simp add: absPath_def niceName_def)
  next
    case False
    then have "?p = absPath (segs @ [name])" using absPath_snoc_eq[of segs name] by simp
    then show ?thesis using splitOn_absPath[OF nice] by simp
  qed
  have abs: "isAbsolute ?p" by (simp add: isAbsolute_def absPath_def)
  have last: "last ?p \<noteq> slash" using ne ls by simp
  have r: "joinWith [slash] (segs @ [name]) \<noteq> []" using ne by (rule joinWith_nonempty)
  have "normalize ?p = absPath (segs @ [name])"
    using abs last r split by (simp add: normalize_def Let_def absPath_def)
  then show ?thesis using ne by (simp add: join_def absPath_def)
qed

lemma joinWith_append:
  "xs \<noteq> [] \<Longrightarrow> ys \<noteq> [] \<Longrightarrow> joinWith sep (xs @ ys) = joinWith sep xs @ sep @ joinWith sep ys"
  by (induction sep xs rule: joinWith.induct) (auto simp: joinWith_Cons)

lemma join_absPath_segs:
  assumes base: "\<forall>s\<in>set base. niceName s" and segs: "\<forall>s\<in>set segs. niceName s"
    and ne: "segs \<noteq> []"
  shows "join (absPath base) (joinWith [slash] segs) = absPath (base @ segs)"
proof -
  let ?b = "joinWith [slash] segs"
  let ?p = "absPath base @ [slash] @ ?b"
  obtain front name where sn: "segs = front @ [name]"
    using ne by (metis rev_exhaust)
  have name: "niceName name" using segs sn by simp
  have bne: "?b \<noteq> []" unfolding sn using name by (intro joinWith_nonempty) (simp add: niceName_def)
  have "last ?b = last name" unfolding sn using name by (intro last_joinWith) (simp add: niceName_def)
  then have ls: "last ?b \<noteq> slash" using niceName_last[OF name] by simp
  have nice: "\<forall>s\<in>set (base @ segs). niceName s" using base segs by auto
  have sp: "splitOn slash ?b = segs"
    using ne segs by (intro splitOn_joinWith) (auto simp: niceName_def)
  have split: "normalizeSegs False [] (splitOn slash ?p) = base @ segs"
  proof (cases "base = []")
    case True
    have "normalizeSegs False [] segs = [] @ segs"
      using segs by (intro normalizeSegs_nice) (auto simp: niceName_def)
    then show ?thesis using True sp by (simp add: absPath_def)
  next
    case False
    then have "?p = absPath (base @ segs)"
      using ne by (simp add: absPath_def joinWith_append)
    then show ?thesis using splitOn_absPath[OF nice] by simp
  qed
  have abs: "isAbsolute ?p" by (simp add: isAbsolute_def absPath_def)
  have last: "last ?p \<noteq> slash" using bne ls by simp
  have "base @ segs = (base @ front) @ [name]" using sn by simp
  then have r: "joinWith [slash] (base @ segs) \<noteq> []"
    using name joinWith_nonempty[of name "[slash]" "base @ front"] by (simp add: niceName_def)
  have "normalize ?p = absPath (base @ segs)"
    using abs last r split by (simp add: normalize_def Let_def absPath_def)
  then show ?thesis using bne by (simp add: join_def absPath_def)
qed

lemma relative_absPath:
  assumes "\<forall>s\<in>set (base @ rest). niceName s"
  shows "relative wd (absPath base) (absPath (base @ rest)) = joinWith [slash] rest"
proof -
  have c: "commonPrefixLen base (base @ rest) = length base"
    by (induction base) auto
  have "resolveSegs wd (absPath base) = base" "resolveSegs wd (absPath (base @ rest)) = base @ rest"
    using assms by (auto intro!: resolveSegs_absPath)
  then show ?thesis by (simp add: relative_def Let_def c)
qed

lemma rev_joinWith_snoc:
  "segs \<noteq> [] \<Longrightarrow> rev (joinWith [slash] (segs @ [name])) = rev name @ slash # rev (joinWith [slash] segs)"
  by (simp add: joinWith_snoc)

lemma dropWhile_slash_name:
  "name \<noteq> [] \<Longrightarrow> last name \<noteq> slash \<Longrightarrow> dropWhile (\<lambda>x. x = slash) (rev name @ t) = rev name @ t"
  by (cases name rule: rev_cases) auto

lemma dropWhile_notslash_name:
  "slash \<notin> set name \<Longrightarrow> dropWhile (\<lambda>x. x \<noteq> slash) (rev name @ slash # t) = slash # t"
  by (induction name rule: rev_induct) auto

lemma takeWhile_notslash_name:
  "slash \<notin> set name \<Longrightarrow> takeWhile (\<lambda>x. x \<noteq> slash) (rev name @ slash # t) = rev name"
  by (induction name rule: rev_induct) auto

lemma basename_absPath:
  assumes "niceName name"
  shows "basename (absPath (segs @ [name])) = name"
proof -
  have ne: "name \<noteq> []" "last name \<noteq> slash" "slash \<notin> set name"
    using assms niceName_last by (auto simp: niceName_def)
  have "\<exists>t. rev (absPath (segs @ [name])) = rev name @ slash # t"
    by (cases "segs = []") (auto simp: absPath_def joinWith_snoc)
  then obtain t where t: "rev (absPath (segs @ [name])) = rev name @ slash # t" by blast
  show ?thesis
    unfolding basename_def t
    using dropWhile_slash_name[OF ne(1,2)] takeWhile_notslash_name[OF ne(3)] by simp
qed

lemma dirname_absPath:
  assumes "niceName name" and "\<forall>s\<in>set segs. niceName s"
  shows "dirname (absPath (segs @ [name])) = absPath segs"
proof -
  have ne: "name \<noteq> []" "last name \<noteq> slash" "slash \<notin> set name"
    using assms niceName_last by (auto simp: niceName_def)
  have d1: "dropWhile (\<lambda>x. x = slash) (rev name @ t) = rev name @ t" for t
    using ne(1,2) by (rule dropWhile_slash_name)
  show ?thesis
  proof (cases "segs = []")
    case True
    have d2: "dropWhile (\<lambda>x. x \<noteq> slash) (rev name) = []"
      using ne(3) by (induction name rule: rev_induct) auto
    have "dropWhile (\<lambda>x. x \<noteq> slash) (dropWhile (\<lambda>x. x = slash) (rev name)) = []"
      using d1[of "[]"] d2 by simp
    then have "dirname (slash # name) = [slash]"
      unfolding dirname_def by (simp only: list.case simp_thms if_True)
    then show ?thesis using True by (simp add: absPath_def)
  next
    case False
    then obtain y ys where segs: "segs = ys @ [y]" by (cases segs rule: rev_cases) auto
    then have "y \<noteq> []" using assms by (auto simp: niceName_def)
    then have j: "joinWith [slash] segs \<noteq> []" unfolding segs by (rule joinWith_nonempty)
    have d3: "dropWhile (\<lambda>x. x \<noteq> slash) (dropWhile (\<lambda>x. x = slash)
            (rev name @ slash # rev (joinWith [slash] segs))) = slash # rev (joinWith [slash] segs)"
      unfolding d1 using ne(3) by (rule dropWhile_notslash_name)
    have "rev (joinWith [slash] segs) \<noteq> []" using j by simp
    then have "dirname (slash # joinWith [slash] segs @ slash # name) = slash # joinWith [slash] segs"
      unfolding dirname_def
      by (simp only: list.case rev_append rev.simps append.simps append_assoc d3 if_False
          simp_thms rev_rev_ident)
    then show ?thesis using False by (simp add: absPath_def joinWith_snoc)
  qed
qed

section \<open>What discovery returns\<close>

text \<open>
  The first equations of \<open>findJsFiles\<close> and \<open>findHtmlFiles\<close> are the call of
  \<open>fs.readdirSync\<close>: its exception ends the function, its list is traversed.
\<close>

lemma findJsFiles_readdirSync:
  "findJsFiles env dir node fileList =
     (case readdirSync node of
        Inl e \<Rightarrow> Inl e
      | Inr files \<Rightarrow> findJsEntries env dir files fileList)"
  by (cases node) simp_all

lemma findHtmlFiles_readdirSync:
  "findHtmlFiles env dir node fileList =
     (case readdirSync node of
        Inl e \<Rightarrow> Inl e
      | Inr files \<Rightarrow> findHtmlEntries env dir files fileList)"
  by (cases node) simp_all

lemma located_step:
  assumes "located env (segs @ [d]) p" "niceName d" "\<not> startsWith d ''.''" "d \<notin> set IGNORE_DIRS"
  shows "located env segs p"
proof -
  from assms(1) obtain chain name where
    "p = absPath ((segs @ [d]) @ chain @ [name])" "\<forall>s\<in>set (chain @ [name]). niceName s"
    "\<forall>d\<in>set chain. \<not> startsWith d ''.'' \<and> d \<notin> set IGNORE_DIRS"
    "endsWith name ''.js''" "\<not> shouldIgnoreFile env p"
    unfolding located_def by blast
  with assms(2-4) show ?thesis
    unfolding located_def
    by (intro exI[of _ "d # chain"] exI[of _ name]) auto
qed

lemma located_here:
  assumes "niceName name" "endsWith name ''.js''" "\<not> shouldIgnoreFile env (absPath (segs @ [name]))"
  shows "located env segs (absPath (segs @ [name]))"
  unfolding located_def using assms
  by (intro exI[of _ "[]"] exI[of _ name]) auto

lemma discovery_invariant:
  "(\<forall>segs found. dir = absPath segs \<longrightarrow> (\<forall>s\<in>set segs. niceName s) \<longrightarrow> wfTree node \<longrightarrow>
      findJsFiles env dir node fileList = Inr found \<longrightarrow>
      (\<forall>p\<in>set found. p \<in> set fileList \<or> located env segs p))"
  "(\<forall>segs found. dir = absPath segs \<longrightarrow> (\<forall>s\<in>set segs. niceName s) \<longrightarrow> wfEntries es \<longrightarrow>
      findJsEntries env dir es fileList = Inr found \<longrightarrow>
      (\<forall>p\<in>set found. p \<in> set fileList \<or> located env segs p))"
proof (induction env dir node fileList and env dir es fileList rule: findJsFiles_findJsEntries.induct)
  case (1 env dir files fileList)
  then show ?case by simp
next
  case (2 env dir v fileList)
  then show ?case by simp
next
  case (3 env dir fileList)
  then show ?case by simp
next
  case (4 env dir e fileList)
  then show ?case by simp
next
  case (5 env dir fileList)
  then show ?case by simp
next
  case (6 env dir fname child rest fileList)
  show ?case
  proof (intro allI impI ballI)
    fix segs found p
    assume dir: "dir = absPath segs" and nice: "\<forall>s\<in>set segs. niceName s"
      and wf: "wfEntries ((fname, child) # rest)"
      and run: "findJsEntries env dir ((fname, child) # rest) fileList = Inr found"
      and p: "p \<in> set found"
    from wf have nf: "niceName fname" and wc: "wfTree child" and wr: "wfEntries rest" by auto
    have j: "join dir fname = absPath (segs @ [fname])"
      unfolding dir using nice nf by (rule join_absPath)
    from run obtain isDirectory where st: "statSync child = Inr isDirectory"
      by (auto split: sum.splits)
    show "p \<in> set fileList \<or> located env segs p"
    proof (cases isDirectory)
      case True
      show ?thesis
      proof (cases "\<not> startsWith fname ''.'' \<and> fname \<notin> set IGNORE_DIRS")
        case descend: True
        from run st True descend obtain fl' where
          sub: "findJsFiles env (join dir fname) child fileList = Inr fl'"
          and rst: "findJsEntries env dir rest fl' = Inr found"
          by (auto split: sum.splits)
        have nice': "\<forall>s\<in>set (segs @ [fname]). niceName s" using nice nf by simp
        have ih1: "\<forall>p\<in>set fl'. p \<in> set fileList \<or> located env (segs @ [fname]) p"
          using "6.IH"(1)[OF st True descend] j nice' wc sub by blast
        have ih2: "\<forall>p\<in>set found. p \<in> set fl' \<or> located env segs p"
          using "6.IH"(2)[OF st True descend sub] dir nice wr rst by blast
        from ih2 p have "p \<in> set fl' \<or> located env segs p" by blast
        then show ?thesis
        proof
          assume "p \<in> set fl'"
          with ih1 have "p \<in> set fileList \<or> located env (segs @ [fname]) p" by blast
          then show ?thesis using located_step[of env segs fname p] nf descend by blast
        qed simp
      next
        case False
        with run st True have rst: "findJsEntries env dir rest fileList = Inr found" by auto
        show ?thesis using "6.IH"(3)[OF st True False] dir nice wr rst p by blast
      qed
    next
      case False
      show ?thesis
      proof (cases "endsWith fname ''.js'' \<and> \<not> shouldIgnoreFile env (join dir fname)")
        case take: True
        with run st False have rst: "findJsEntries env dir rest (fileList @ [join dir fname]) = Inr found"
          by auto
        have "p \<in> set (fileList @ [join dir fname]) \<or> located env segs p"
          using "6.IH"(4)[OF st False take] dir nice wr rst p by blast
        moreover have "located env segs (join dir fname)"
          unfolding j using nf take j by (intro located_here) auto
        ultimately show ?thesis by auto
      next
        case skip: False
        with run st False have rst: "findJsEntries env dir rest fileList = Inr found" by auto
        show ?thesis using "6.IH"(5)[OF st False skip] dir nice wr rst p by blast
      qed
    qed
  qed
qed

lemma suffix_joinWith: "suffix x (joinWith sep (segs @ [x]))"
  by (induction sep segs rule: joinWith.induct) (auto simp: suffix_append)

lemma suffix_absPath: "suffix name (absPath (segs @ [name]))"
  unfolding absPath_def using suffix_joinWith[of name "[slash]" segs]
  by (simp add: suffix_Cons)

lemma ignore_paths_plain: "map toForwardSlashes IGNORE_FILE_PATHS = IGNORE_FILE_PATHS"
  by (simp add: IGNORE_FILE_PATHS_def toForwardSlashes_def backslash_def slash_def)

lemma shouldIgnoreFile_iff:
  "shouldIgnoreFile env p \<longleftrightarrow> toForwardSlashes (relativeToRoot env p) \<in> set IGNORE_FILE_PATHS"
proof -
  have "shouldIgnoreFile env p \<longleftrightarrow>
      toForwardSlashes (relativeToRoot env p) \<in> set (map toForwardSlashes IGNORE_FILE_PATHS)"
    by (auto simp: shouldIgnoreFile_def Let_def list_ex_iff)
  then show ?thesis by (simp only: ignore_paths_plain)
qed

lemma located_segments:
  assumes "located env base p" and "\<forall>s\<in>set base. niceName s"
  shows "(\<forall>d\<in>set (butlast (splitOn slash (relative wd (absPath base) p))).
            \<not> startsWith d ''.'' \<and> d \<notin> set IGNORE_DIRS) \<and>
         toForwardSlashes (relativeToRoot env p) \<notin> set IGNORE_FILE_PATHS \<and>
         endsWith p ''.js''"
proof -
  from assms(1) obtain chain name where p: "p = absPath (base @ chain @ [name])"
    and nice: "\<forall>s\<in>set (chain @ [name]). niceName s"
    and good: "\<forall>d\<in>set chain. \<not> startsWith d ''.'' \<and> d \<notin> set IGNORE_DIRS"
    and js: "endsWith name ''.js''" and keep: "\<not> shouldIgnoreFile env p"
    unfolding located_def by blast
  have all: "\<forall>s\<in>set (base @ chain @ [name]). niceName s"
    using assms(2) nice by auto
  have rel: "relative wd (absPath base) p = joinWith [slash] (chain @ [name])"
    unfolding p using all by (rule relative_absPath)
  have "splitOn slash (joinWith [slash] (chain @ [name])) = chain @ [name]"
    using nice by (intro splitOn_joinWith) (auto simp: niceName_def)
  then have segs: "butlast (splitOn slash (relative wd (absPath base) p)) = chain"
    by (simp add: rel)
  have "suffix ''.js'' p"
    using js suffix_absPath[of name "base @ chain"] unfolding p endsWith_def
    by (auto intro: suffix_order.trans)
  then show ?thesis
    using good keep by (simp add: segs shouldIgnoreFile_iff endsWith_def)
qed

section \<open>Where a build is written\<close>

lemma map_of_setEntry: "map_of (setEntry name n es) name = Some n"
  by (induction es) auto

lemma writeSegs_lookupSegs:
  "writeSegs n segs data = Inr n' \<Longrightarrow> lookupSegs n' segs = File data"
proof (induction n segs data arbitrary: n' rule: writeSegs.induct)
  case (7 es s ss data)
  show ?case
  proof (cases "map_of es s")
    case None
    with 7 show ?thesis by (auto simp: map_add_def split: if_splits)
  next
    case (Some c)
    with "7.prems" obtain c' where w: "writeSegs c ss data = Inr c'" and n': "n' = Dir (setEntry s c' es)"
      by (auto split: sum.splits)
    from "7.IH"[OF Some w] have "lookupSegs c' ss = File data" .
    then show ?thesis by (simp add: n' map_of_setEntry)
  qed
qed auto

lemma niceName_build: "niceName ''build''"
  by (simp add: niceName_def slash_def)

lemma outputPathFor_absPath:
  assumes "\<forall>s\<in>set (segs @ [name]). niceName s"
  shows "buildDirFor (absPath (segs @ [name])) = absPath (segs @ [''build''])"
    and "outputPathFor (absPath (segs @ [name])) = absPath (segs @ [''build'', name])"
proof -
  have n: "niceName name" and s: "\<forall>s\<in>set segs. niceName s" using assms by auto
  have d: "dirname (absPath (segs @ [name])) = absPath segs"
    using n s by (rule dirname_absPath)
  have b: "basename (absPath (segs @ [name])) = name"
    using n by (rule basename_absPath)
  show bd: "buildDirFor (absPath (segs @ [name])) = absPath (segs @ [''build''])"
    unfolding buildDirFor_def d using s niceName_build by (rule join_absPath)
  have "\<forall>s\<in>set (segs @ [''build'']). niceName s" using s niceName_build by simp
  then have "join (absPath (segs @ [''build''])) name = absPath ((segs @ [''build'']) @ [name])"
    using n by (rule join_absPath)
  then show "outputPathFor (absPath (segs @ [name])) = absPath (segs @ [''build'', name])"
    unfolding outputPathFor_def bd b by simp
qed

lemma toForwardSlashes_id: "backslash \<notin> set s \<Longrightarrow> toForwardSlashes s = s"
  by (induction s) (auto simp: toForwardSlashes_def)

lemma joinWith_plain:
  "\<forall>s\<in>set segs. c \<notin> set s \<Longrightarrow> c \<notin> set sep \<Longrightarrow> c \<notin> set (joinWith sep segs)"
  by (induction sep segs rule: joinWith.induct) auto

lemma writeFileSync_nodeAt:
  "writeFileSync env root p data = Inr root' \<Longrightarrow> nodeAt env root' p = File data"
  by (simp add: writeFileSync_def nodeAt_def writeSegs_lookupSegs)

lemma buildFile_Some:
  assumes "buildFile env filePath w = (w', Some r)"
  shows "r = \<lparr>originalPath = toForwardSlashes (relativeToRoot env filePath),
              builtPath = toForwardSlashes (relativeToRoot env (outputPathFor filePath))\<rparr> \<and>
         (\<exists>fs2 data. writeFileSync env fs2 (outputPathFor filePath) data = Inr (fs w'))"
  using assms
  apply (auto simp: buildFile_def buildFileBody_def Let_def outputPathFor_def buildDirFor_def
      split: sum.splits prod.splits if_splits)
   apply blast+
  done

lemma buildFile_paths:
  assumes root: "rootDir env = absPath root"
    and nice: "\<forall>s\<in>set (root @ dirs @ [name]). niceName s"
    and plain: "\<forall>s\<in>set (dirs @ [name]). backslash \<notin> set s"
    and ok: "buildFile env (absPath (root @ dirs @ [name])) w = (w', Some r)"
  shows "outputPathFor (absPath (root @ dirs @ [name])) = absPath (root @ dirs @ [''build'', name]) \<and>
         originalPath r = joinWith [slash] (dirs @ [name]) \<and>
         builtPath r = joinWith [slash] (dirs @ [''build'', name]) \<and>
         join (rootDir env) (originalPath r) = absPath (root @ dirs @ [name]) \<and>
         join (rootDir env) (builtPath r) = absPath (root @ dirs @ [''build'', name]) \<and>
         (\<exists>data. nodeAt env (fs w') (join (rootDir env) (builtPath r)) = File data)"
proof -
  let ?file = "absPath (root @ dirs @ [name])"
  let ?out = "absPath (root @ dirs @ [''build'', name])"
  have nice1: "\<forall>s\<in>set ((root @ dirs) @ [name]). niceName s" using nice by simp
  have out: "outputPathFor ?file = ?out"
    using outputPathFor_absPath(2)[OF nice1] by simp
  have nice2: "\<forall>s\<in>set (root @ dirs @ [''build'', name]). niceName s"
    using nice niceName_build by auto
  from buildFile_Some[OF ok] obtain fs2 data where
    r: "r = \<lparr>originalPath = toForwardSlashes (relativeToRoot env ?file),
              builtPath = toForwardSlashes (relativeToRoot env (outputPathFor ?file))\<rparr>"
    and wr: "writeFileSync env fs2 (outputPathFor ?file) data = Inr (fs w')"
    by blast
  have rel1: "relativeToRoot env ?file = joinWith [slash] (dirs @ [name])"
    unfolding relativeToRoot_def root using nice by (rule relative_absPath)
  have rel2: "relativeToRoot env ?out = joinWith [slash] (dirs @ [''build'', name])"
    unfolding relativeToRoot_def root using nice2 by (rule relative_absPath)
  have sep: "backslash \<notin> set [slash]" by (simp add: backslash_def slash_def)
  have "\<forall>s\<in>set (dirs @ [name]). backslash \<notin> set s" by (rule plain)
  then have p1: "backslash \<notin> set (joinWith [slash] (dirs @ [name]))"
    using sep by (rule joinWith_plain)
  have "\<forall>s\<in>set (dirs @ [''build'', name]). backslash \<notin> set s"
    using plain by (auto simp: backslash_def)
  then have p2: "backslash \<notin> set (joinWith [slash] (dirs @ [''build'', name]))"
    using sep by (rule joinWith_plain)
  have orig: "originalPath r = joinWith [slash] (dirs @ [name])"
    by (simp add: r rel1 toForwardSlashes_id[OF p1])
  have built: "builtPath r = joinWith [slash] (dirs @ [''build'', name])"
    by (simp add: r out rel2 toForwardSlashes_id[OF p2])
  have nr: "\<forall>s\<in>set root. niceName s" and n1: "\<forall>s\<in>set (dirs @ [name]). niceName s"
    and n2: "\<forall>s\<in>set (dirs @ [''build'', name]). niceName s"
    using nice niceName_build by auto
  have j1: "join (rootDir env) (originalPath r) = ?file"
    unfolding root orig using join_absPath_segs[OF nr n1] by simp
  have j2: "join (rootDir env) (builtPath r) = ?out"
    unfolding root built using join_absPath_segs[OF nr n2] by simp
  from wr have written: "nodeAt env (fs w') ?out = File data"
    unfolding out by (rule writeFileSync_nodeAt)
  show ?thesis
    using out orig built j1 j2 written by simp
qed

section \<open>Substitution on the pieces of a text\<close>

lemma pieces_nonempty: "pieces s \<noteq> []"
  by (induction s) (auto split: list.splits)

lemma pieces_quote: "isQuote q \<Longrightarrow> pieces (q # s) = [] # pieces s"
  by simp

lemma pieces_plain_append: "quoteFree u \<Longrightarrow> pieces (u @ s) = (u @ hd (pieces s)) # tl (pieces s)"
proof (induction u)
  case Nil
  then show ?case using pieces_nonempty[of s] by simp
next
  case (Cons c u)
  then show ?case by (simp add: quoteFree_def)
qed

lemma pieces_ref:
  assumes "quoteFree a" "quoteFree p" "isQuote q1" "isQuote q2"
  shows "pieces (a @ q1 # p @ q2 # rest) = a # p # pieces rest"
  using assms by (simp add: pieces_plain_append)

lemma pieces_first_plain: "pieces s = x # xs \<Longrightarrow> quoteFree x"
proof (induction s arbitrary: x xs)
  case Nil
  then show ?case by (simp add: quoteFree_def)
next
  case (Cons c s)
  then show ?case
    by (cases "pieces s") (auto simp: quoteFree_def split: if_splits)
qed

lemma pieces_split:
  "pieces s = x # y # ys \<Longrightarrow> \<exists>q rest. isQuote q \<and> s = x @ q # rest \<and> pieces rest = y # ys"
proof (induction s arbitrary: x)
  case Nil
  then show ?case by simp
next
  case (Cons c s)
  show ?case
  proof (cases "isQuote c")
    case True
    with Cons.prems show ?thesis by auto
  next
    case False
    with Cons.prems obtain x' where x: "x = c # x'" and t: "pieces s = x' # y # ys"
      by (cases "pieces s") auto
    from Cons.IH[OF t] obtain q rest where "isQuote q" "s = x' @ q # rest" "pieces rest = y # ys"
      by blast
    with x show ?thesis by auto
  qed
qed

lemma refAt_pieces:
  assumes "quoteFree a" "quoteFree p"
  shows "refAt a p s \<longleftrightarrow> (\<exists>z ws. pieces s = a # p # z # ws)"
proof
  assume "refAt a p s"
  then obtain q1 q2 rest where q: "isQuote q1" "isQuote q2" and s: "s = a @ q1 # p @ q2 # rest"
    unfolding refAt_iff by blast
  have "pieces s = a # p # pieces rest" unfolding s using assms q by (rule pieces_ref)
  then show "\<exists>z ws. pieces s = a # p # z # ws"
    using pieces_nonempty[of rest] by (cases "pieces rest") auto
next
  assume "\<exists>z ws. pieces s = a # p # z # ws"
  then obtain z ws where t: "pieces s = a # p # z # ws" by blast
  from pieces_split[OF t] obtain q1 r1 where q1: "isQuote q1" and s: "s = a @ q1 # r1"
    and t1: "pieces r1 = p # z # ws" by blast
  from pieces_split[OF t1] obtain q2 r2 where q2: "isQuote q2" and r1: "r1 = p @ q2 # r2" by blast
  show "refAt a p s" unfolding refAt_iff using q1 q2 s r1 by blast
qed

lemma substPieces_length: "length (substPieces a p b ts) = length ts"
  by (induction a p b ts rule: substPieces.induct) auto

lemma substPieces_first: "\<exists>r. substPieces a p b (x # ts) = x # r"
  by (cases "(a, p, b, x # ts)" rule: substPieces.cases) auto

lemma substPieces_Cons_cong:
  assumes "\<not> (\<exists>z ws. ts = p # z # ws \<and> (suffix a x \<noteq> suffix a x'))"
  shows "tl (substPieces a p b (x # ts)) = tl (substPieces a p b (x' # ts))"
proof (cases ts)
  case Nil
  then show ?thesis by simp
next
  case (Cons y ys)
  show ?thesis
  proof (cases ys)
    case Nil
    with Cons show ?thesis by simp
  next
    case (Cons z ws)
    with \<open>ts = y # ys\<close> assms show ?thesis by auto
  qed
qed

lemma suffix_Cons_iff: "suffix a (c # x) \<longleftrightarrow> a = c # x \<or> suffix a x"
  by (auto simp: suffix_Cons)

lemma pieces_substRef:
  assumes a: "quoteFree a" and p: "quoteFree p" and b: "quoteFree b" and q: "isQuote q"
  shows "pieces (substRef a q p b s) = substPieces a p b (pieces s)"
proof (induction s rule: length_induct)
  case (1 s)
  show ?case
  proof (cases s)
    case Nil
    then show ?thesis by simp
  next
    case (Cons c cs)
    show ?thesis
    proof (cases "refAt a p s")
      case True
      then obtain q1 q2 rest where qq: "isQuote q1" "isQuote q2" and s: "s = a @ q1 # p @ q2 # rest"
        unfolding refAt_iff by blast
      have d: "drop (length a + length p + 2) s = rest" unfolding s by simp
      have "length rest < length s" unfolding s by simp
      with 1 have ih: "pieces (substRef a q p b rest) = substPieces a p b (pieces rest)" by blast
      obtain z ws where tr: "pieces rest = z # ws"
        using pieces_nonempty[of rest] by (cases "pieces rest") auto
      have ts: "pieces s = a # p # z # ws"
        unfolding s using pieces_ref[OF a p qq, of rest] tr by simp
      have "substRef a q p b s = a @ q # b @ q # substRef a q p b rest"
        using True Cons d by simp
      then have "pieces (substRef a q p b s) = a # b # pieces (substRef a q p b rest)"
        using pieces_ref[OF a b q q] by simp
      also have "\<dots> = a # b # substPieces a p b (z # ws)" by (simp add: ih tr)
      also have "\<dots> = substPieces a p b (pieces s)" unfolding ts by simp
      finally show ?thesis .
    next
      case False
      then have no: "\<not> (\<exists>z ws. pieces s = a # p # z # ws)"
        using refAt_pieces[OF a p] by blast
      have step: "substRef a q p b s = c # substRef a q p b cs"
        using False Cons by simp
      have ih: "pieces (substRef a q p b cs) = substPieces a p b (pieces cs)"
        using 1 Cons by simp
      obtain x ts where tc: "pieces cs = x # ts"
        using pieces_nonempty[of cs] by (cases "pieces cs") auto
      obtain r where first: "substPieces a p b (x # ts) = x # r"
        using substPieces_first by blast
      show ?thesis
      proof (cases "isQuote c")
        case True
        then have t: "pieces s = [] # x # ts" using Cons tc by simp
        have "\<not> (suffix a [] \<and> x = p \<and> ts \<noteq> [])"
          using no t by (cases ts) auto
        then have "substPieces a p b ([] # x # ts) = [] # substPieces a p b (x # ts)"
          by (cases ts) auto
        then show ?thesis using True step ih tc t by simp
      next
        case nq: False
        then have t: "pieces s = (c # x) # ts" using Cons tc by simp
        have "\<not> (\<exists>z ws. ts = p # z # ws \<and> (suffix a (c # x) \<noteq> suffix a x))"
          using no t by (auto simp: suffix_Cons_iff)
        then have "tl (substPieces a p b ((c # x) # ts)) = tl (substPieces a p b (x # ts))"
          by (rule substPieces_Cons_cong)
        moreover obtain r' where "substPieces a p b ((c # x) # ts) = (c # x) # r'"
          using substPieces_first by blast
        ultimately have "substPieces a p b ((c # x) # ts) = (c # x) # r"
          by (simp add: first)
        moreover have "pieces (substRef a q p b s) = (c # x) # r"
          using nq step ih tc first by simp
        ultimately show ?thesis using t by simp
      qed
    qed
  qed
qed

lemma hasRef_pieces:
  assumes a: "quoteFree a" and p: "quoteFree p"
  shows "hasRef a p s \<longleftrightarrow> refInPieces a p (pieces s)"
proof (induction s)
  case Nil
  then show ?case by simp
next
  case (Cons c cs)
  obtain x ts where tc: "pieces cs = x # ts"
    using pieces_nonempty[of cs] by (cases "pieces cs") auto
  have r: "refAt a p (c # cs) \<longleftrightarrow> (\<exists>z ws. pieces (c # cs) = a # p # z # ws)"
    using refAt_pieces[OF a p] by blast
  show ?case
  proof (cases "isQuote c")
    case True
    then have t: "pieces (c # cs) = [] # x # ts" using tc by simp
    show ?thesis unfolding hasRef.simps r Cons.IH t tc
      by (cases ts) auto
  next
    case False
    then have t: "pieces (c # cs) = (c # x) # ts" using tc by simp
    show ?thesis unfolding hasRef.simps r Cons.IH t tc
    proof (cases ts)
      case Nil
      then show "(\<exists>z ws. (c # x) # ts = a # p # z # ws) \<or> refInPieces a p (x # ts) \<longleftrightarrow> refInPieces a p ((c # x) # ts)"
        by simp
    next
      case (Cons y ys)
      then show "(\<exists>z ws. (c # x) # ts = a # p # z # ws) \<or> refInPieces a p (x # ts) \<longleftrightarrow> refInPieces a p ((c # x) # ts)"
        by (cases ys) (auto simp: suffix_Cons_iff)
    qed
  qed
qed

lemma ex_nat_split: "(\<exists>i::nat. P i) \<longleftrightarrow> P 0 \<or> (\<exists>j. P (Suc j))"
  by (metis not0_implies_Suc)

lemma refInPieces_iff:
  "refInPieces a p ts \<longleftrightarrow> (\<exists>i. i + 2 < length ts \<and> suffix a (ts ! i) \<and> ts ! Suc i = p)"
proof (induction a p ts rule: refInPieces.induct)
  case (1 a p x y z ws)
  show ?case
    unfolding refInPieces.simps "1.IH"
    by (subst (2) ex_nat_split) simp
qed auto

lemma doubledPieces_iff:
  "doubledPieces p ts \<longleftrightarrow> (\<exists>i. i + 3 < length ts \<and> ts ! Suc i = p \<and> ts ! Suc (Suc i) = p)"
proof (induction p ts rule: doubledPieces.induct)
  case (1 p x y z w ws)
  show ?case
    unfolding doubledPieces.simps "1.IH"
    by (subst (2) ex_nat_split) simp
qed auto

lemma substPieces_nth:
  "i < length ts \<Longrightarrow>
   substPieces a p b ts ! i = ts ! i \<or> (substPieces a p b ts ! i = b \<and> ts ! i = p)"
proof (induction a p b ts arbitrary: i rule: substPieces.induct)
  case (1 a p b x y z ws)
  show ?case
  proof (cases "suffix a x \<and> y = p")
    case True
    then have t: "substPieces a p b (x # y # z # ws) = x # b # substPieces a p b (z # ws)" by simp
    show ?thesis
    proof (cases i)
      case 0
      then show ?thesis by (simp add: t)
    next
      case (Suc j)
      show ?thesis
      proof (cases j)
        case 0
        with Suc True show ?thesis by (simp add: t)
      next
        case (Suc k)
        with \<open>i = Suc j\<close> "1.prems" have "k < length (z # ws)" by simp
        from "1.IH"(1)[OF True this] show ?thesis
          unfolding t using Suc \<open>i = Suc j\<close> by simp
      qed
    qed
  next
    case False
    then have t: "substPieces a p b (x # y # z # ws) = x # substPieces a p b (y # z # ws)" by auto
    show ?thesis
    proof (cases i)
      case 0
      then show ?thesis by (simp add: t)
    next
      case (Suc j)
      with "1.prems" have "j < length (y # z # ws)" by simp
      from "1.IH"(2)[OF False this] show ?thesis
        unfolding t using Suc by simp
    qed
  qed
qed auto

lemma substPieces_nth_first: "0 < length ts \<Longrightarrow> substPieces a p b ts ! 0 = ts ! 0"
  by (cases "(a, p, b, ts)" rule: substPieces.cases) auto

lemma refInPieces_tsub_other:
  assumes ne: "p' \<noteq> b" and suf: "a' = [] \<or> \<not> suffix a' b"
    and has: "refInPieces a' p' (substPieces a p b ts)"
  shows "refInPieces a' p' ts"
proof -
  from has obtain i where i: "i + 2 < length ts"
    and s: "suffix a' (substPieces a p b ts ! i)" and e: "substPieces a p b ts ! Suc i = p'"
    unfolding refInPieces_iff by (auto simp: substPieces_length)
  have "Suc i < length ts" using i by simp
  from substPieces_nth[OF this, of a p b] e ne have e': "ts ! Suc i = p'" by auto
  have "i < length ts" using i by simp
  from substPieces_nth[OF this, of a p b] have "suffix a' (ts ! i)"
  proof
    assume "substPieces a p b ts ! i = ts ! i"
    with s show ?thesis by simp
  next
    assume "substPieces a p b ts ! i = b \<and> ts ! i = p"
    with s suf show ?thesis by auto
  qed
  with i e' show ?thesis unfolding refInPieces_iff by blast
qed

lemma doubledPieces_substPieces:
  assumes ne: "p' \<noteq> b" and d: "doubledPieces p' (substPieces a p b ts)"
  shows "doubledPieces p' ts"
proof -
  from d obtain i where i: "i + 3 < length ts"
    and e1: "substPieces a p b ts ! Suc i = p'" and e2: "substPieces a p b ts ! Suc (Suc i) = p'"
    unfolding doubledPieces_iff by (auto simp: substPieces_length)
  have "Suc i < length ts" "Suc (Suc i) < length ts" using i by simp_all
  from substPieces_nth[OF this(1), of a p b] substPieces_nth[OF this(2), of a p b] e1 e2 ne
  have "ts ! Suc i = p'" "ts ! Suc (Suc i) = p'" by auto
  with i show ?thesis unfolding doubledPieces_iff by blast
qed

lemma refInPieces_Cons_iff:
  "refInPieces a p (x # y # ts) \<longleftrightarrow> (ts \<noteq> [] \<and> suffix a x \<and> y = p) \<or> refInPieces a p (y # ts)"
  by (cases ts) auto

lemma doubledPieces_Cons: "doubledPieces p ts \<Longrightarrow> doubledPieces p (x # ts)"
proof -
  assume "doubledPieces p ts"
  then obtain i where "i + 3 < length ts" "ts ! Suc i = p" "ts ! Suc (Suc i) = p"
    unfolding doubledPieces_iff by blast
  then have "Suc i + 3 < length (x # ts) \<and> (x # ts) ! Suc (Suc i) = p \<and>
      (x # ts) ! Suc (Suc (Suc i)) = p" by simp
  then show ?thesis unfolding doubledPieces_iff by blast
qed

lemma refInPieces_tsub_attr:
  "p \<noteq> b \<Longrightarrow> \<not> suffix a b \<Longrightarrow> \<not> refInPieces a p (substPieces a p b ts)"
proof (induction a p b ts rule: substPieces.induct)
  case (1 a p b x y z ws)
  show ?case
  proof (cases "suffix a x \<and> y = p")
    case True
    obtain r where r: "substPieces a p b (z # ws) = z # r" using substPieces_first by blast
    have ih: "\<not> refInPieces a p (z # r)"
      using "1.IH"(1)[OF True "1.prems"] r by simp
    have "substPieces a p b (x # y # z # ws) = x # b # z # r" using True r by simp
    then show ?thesis
      using ih "1.prems" by (simp only: refInPieces_Cons_iff) simp
  next
    case False
    obtain r where r: "substPieces a p b (y # z # ws) = y # r" using substPieces_first by blast
    have ih: "\<not> refInPieces a p (y # r)"
      using "1.IH"(2)[OF False "1.prems"] r by simp
    have "substPieces a p b (x # y # z # ws) = x # y # r" using False r by auto
    then show ?thesis
      using ih False by (simp only: refInPieces_Cons_iff) auto
  qed
qed auto

lemma refInPieces_tsub_bare:
  "p \<noteq> b \<Longrightarrow> \<not> doubledPieces p ts \<Longrightarrow> \<not> refInPieces [] p (substPieces [] p b ts)"
proof (induction "[] :: string" p b ts rule: substPieces.induct)
  case (1 p b x y z ws)
  show ?case
  proof (cases "y = p")
    case True
    then have m: "suffix [] x \<and> y = p" by simp
    obtain r where r: "substPieces [] p b (z # ws) = z # r" using substPieces_first by blast
    have len: "length r = length ws"
      using substPieces_length[of "[]" p b "z # ws"] r by simp
    have nd: "\<not> doubledPieces p (z # ws)"
      using "1.prems"(2) doubledPieces_Cons[of p "z # ws" y] doubledPieces_Cons[of p "y # z # ws" x] by blast
    have ih: "\<not> refInPieces [] p (z # r)"
      using "1.hyps"(1)[OF m "1.prems"(1) nd] r by simp
    have nz: "\<not> (r \<noteq> [] \<and> z = p)"
    proof
      assume "r \<noteq> [] \<and> z = p"
      then obtain w ws' where "ws = w # ws'" "z = p" using len by (cases ws) auto
      with True "1.prems"(2) show False by simp
    qed
    have "substPieces [] p b (x # y # z # ws) = x # b # z # r" using True r by simp
    then show ?thesis
      using ih nz "1.prems"(1) by (simp only: refInPieces_Cons_iff) auto
  next
    case False
    then have m: "\<not> (suffix [] x \<and> y = p)" by simp
    obtain r where r: "substPieces [] p b (y # z # ws) = y # r" using substPieces_first by blast
    have nd: "\<not> doubledPieces p (y # z # ws)"
      using "1.prems"(2) doubledPieces_Cons[of p "y # z # ws" x] by blast
    have ih: "\<not> refInPieces [] p (y # r)"
      using "1.hyps"(2)[OF m "1.prems"(1) nd] r by simp
    have "substPieces [] p b (x # y # z # ws) = x # y # r" using False r by auto
    then show ?thesis
      using ih False by (simp only: refInPieces_Cons_iff) auto
  qed
qed auto

section \<open>References that remain after a substitution\<close>

lemma quoteFree_Nil: "quoteFree []"
  by (simp add: quoteFree_def)

lemma quotedAt_refAt: "quotedAt p s = refAt [] p s"
  by (simp add: refAt_def)

lemma doubledAt_pieces:
  assumes p: "quoteFree p"
  shows "doubledAt p s \<longleftrightarrow> (\<exists>w ws. pieces s = [] # p # p # w # ws)"
proof
  assume "doubledAt p s"
  then have q1: "refAt [] p s" and q2: "refAt [] p (drop (Suc (length p)) s)"
    by (simp_all add: doubledAt_def quotedAt_refAt)
  from q1 obtain a b rest where ab: "isQuote a" "isQuote b" and s: "s = [] @ a # p @ b # rest"
    unfolding refAt_iff by blast
  have d: "drop (Suc (length p)) s = b # rest" unfolding s by simp
  from q2 obtain z ws where "pieces (b # rest) = [] # p # z # ws"
    unfolding d using refAt_pieces[OF quoteFree_Nil p] by blast
  then have "pieces rest = p # z # ws" using ab by simp
  moreover have "pieces s = [] # p # pieces rest"
    unfolding s using pieces_ref[OF quoteFree_Nil p ab] by simp
  ultimately show "\<exists>w ws. pieces s = [] # p # p # w # ws" by simp
next
  assume "\<exists>w ws. pieces s = [] # p # p # w # ws"
  then obtain w ws where t: "pieces s = [] # p # p # w # ws" by blast
  then have q1: "refAt [] p s" using refAt_pieces[OF quoteFree_Nil p] by blast
  from pieces_split[OF t] obtain a r1 where a: "isQuote a" and s: "s = [] @ a # r1"
    and t1: "pieces r1 = p # p # w # ws" by blast
  from pieces_split[OF t1] obtain b r2 where b: "isQuote b" and r1: "r1 = p @ b # r2"
    and t2: "pieces r2 = p # w # ws" by blast
  have d: "drop (Suc (length p)) s = b # r2" unfolding s r1 by simp
  have "pieces (b # r2) = [] # p # w # ws" using b t2 by simp
  then have "refAt [] p (b # r2)" using refAt_pieces[OF quoteFree_Nil p] by blast
  with q1 d show "doubledAt p s" by (simp add: doubledAt_def quotedAt_refAt)
qed

lemma doubledPieces_first: "doubledPieces p (x # ts) = doubledPieces p (x' # ts)"
  by (simp add: doubledPieces_iff)

lemma doubledPieces_Cons_iff:
  "doubledPieces p (x # ts) \<longleftrightarrow> (\<exists>w ws. ts = p # p # w # ws) \<or> doubledPieces p ts"
proof (cases ts)
  case Nil
  then show ?thesis by simp
next
  case (Cons y ys)
  show ?thesis
  proof (cases ys)
    case Nil
    with Cons show ?thesis by simp
  next
    case (Cons z zs)
    show ?thesis
    proof (cases zs)
      case Nil
      with Cons \<open>ts = y # ys\<close> show ?thesis by simp
    next
      case (Cons w ws)
      with \<open>ys = z # zs\<close> \<open>ts = y # ys\<close> show ?thesis by auto
    qed
  qed
qed

lemma hasDoubled_pieces:
  assumes p: "quoteFree p"
  shows "hasDoubled p s \<longleftrightarrow> doubledPieces p (pieces s)"
proof (induction s)
  case Nil
  then show ?case by simp
next
  case (Cons c cs)
  obtain x ts where tc: "pieces cs = x # ts"
    using pieces_nonempty[of cs] by (cases "pieces cs") auto
  show ?case
  proof (cases "isQuote c")
    case True
    then have t: "pieces (c # cs) = [] # x # ts" using tc by simp
    have "doubledAt p (c # cs) \<longleftrightarrow> (\<exists>w ws. x # ts = p # p # w # ws)"
      unfolding doubledAt_pieces[OF p] t by simp
    then show ?thesis
      unfolding hasDoubled.simps Cons.IH t tc
      using doubledPieces_Cons_iff[of p "[]" "x # ts"] by simp
  next
    case False
    then have t: "pieces (c # cs) = (c # x) # ts" using tc by simp
    have "\<not> doubledAt p (c # cs)"
      unfolding doubledAt_pieces[OF p] t by simp
    then show ?thesis
      unfolding hasDoubled.simps Cons.IH t tc
      using doubledPieces_first[of p "c # x" ts x] by simp
  qed
qed

lemma hasRef_substRef_other:
  assumes "quoteFree a" "quoteFree p" "quoteFree b" "isQuote q" "quoteFree a'" "quoteFree p'"
    and "p' \<noteq> b" and "a' = [] \<or> \<not> suffix a' b"
    and "hasRef a' p' (substRef a q p b s)"
  shows "hasRef a' p' s"
  using assms refInPieces_tsub_other[of p' b a' a p "pieces s"]
  by (simp add: hasRef_pieces pieces_substRef)

lemma hasDoubled_substRef:
  assumes "quoteFree a" "quoteFree p" "quoteFree b" "isQuote q" "quoteFree p'"
    and "p' \<noteq> b" and "hasDoubled p' (substRef a q p b s)"
  shows "hasDoubled p' s"
  using assms doubledPieces_substPieces[of p' b a p "pieces s"]
  by (simp add: hasDoubled_pieces pieces_substRef)

lemma hasRef_substRef_attr:
  assumes "quoteFree a" "quoteFree p" "quoteFree b" "isQuote q" and "p \<noteq> b" and "\<not> suffix a b"
  shows "\<not> hasRef a p (substRef a q p b s)"
  using assms refInPieces_tsub_attr[of p b a "pieces s"]
  by (simp add: hasRef_pieces pieces_substRef)

lemma hasRef_substRef_bare:
  assumes "quoteFree p" "quoteFree b" "isQuote q" and "p \<noteq> b" and "\<not> hasDoubled p s"
  shows "\<not> hasRef [] p (substRef [] q p b s)"
  using assms refInPieces_tsub_bare[of p b "pieces s"] quoteFree_Nil
  by (simp add: hasRef_pieces pieces_substRef hasDoubled_pieces)

lemma substRef_id: "\<not> hasRef a p s \<Longrightarrow> substRef a q p b s = s"
  by (induction s) auto

lemma regexTest_refPattern:
  "set qs = {squote, dquote} \<Longrightarrow> regexTest (refPattern qs a p) s \<longleftrightarrow> hasRef a p s"
proof (induction s)
  case Nil
  then show ?case by (simp add: matchesAt_refPattern refAt_def quotedAt_def)
next
  case (Cons c cs)
  then show ?case by (simp add: matchesAt_refPattern)
qed

section \<open>The manifest, mapping after mapping\<close>

lemma rewriteManifest_Cons:
  assumes "dollar \<notin> set (builtPath r)"
  shows "rewriteManifest (r # rs) content = rewriteManifest rs (substStep r content)"
proof -
  have "dollar \<notin> set ([] @ [squote] @ builtPath r @ [squote])"
    using assms by (simp add: dollar_def squote_def)
  then have "replaceFrom (refPattern [squote, dquote] [] (originalPath r))
        ([] @ [squote] @ builtPath r @ [squote]) [] content = substStep r content"
    unfolding substStep_def by (rule replaceFrom_substRef) simp
  then show ?thesis by (simp add: RegExp_manifest replaceAll_def)
qed

lemma rewriteManifest_substRef:
  "\<forall>r\<in>set rs. dollar \<notin> set (builtPath r) \<Longrightarrow>
   rewriteManifest rs content = Inr (foldl (\<lambda>t r. substStep r t) content rs)"
proof (induction rs arbitrary: content)
  case Nil
  then show ?case by simp
next
  case (Cons r rs)
  then have d: "dollar \<notin> set (builtPath r)" and rest: "\<forall>r\<in>set rs. dollar \<notin> set (builtPath r)"
    by simp_all
  show ?case
    unfolding rewriteManifest_Cons[OF d] Cons.IH[OF rest] by simp
qed

lemma isQuote_squote: "isQuote squote"
  by (simp add: isQuote_def)

lemma manifest_settles:
  assumes Orig: "\<forall>orig\<in>Orig. quoteFree orig"
  shows "(\<forall>r\<in>set rs. originalPath r \<in> Orig \<and> quoteFree (builtPath r) \<and> builtPath r \<notin> Orig) \<Longrightarrow>
     (\<forall>orig\<in>Orig. \<not> hasDoubled orig content) \<Longrightarrow> (\<forall>orig\<in>D. \<not> hasRef [] orig content) \<Longrightarrow> D \<subseteq> Orig \<Longrightarrow>
     (\<forall>orig\<in>D \<union> originalPath ` set rs. \<not> hasRef [] orig (foldl (\<lambda>t r. substStep r t) content rs))"
proof (induction rs arbitrary: content D)
  case Nil
  then show ?case by simp
next
  case (Cons r rs)
  let ?orig = "originalPath r" and ?b = "builtPath r"
  let ?t = "substStep r content"
  have inO: "?orig \<in> Orig" and po: "quoteFree ?orig" and pb: "quoteFree ?b" and ne: "?b \<notin> Orig"
    using Cons.prems(1) Orig by auto
  have dbl: "\<forall>orig\<in>Orig. \<not> hasDoubled orig ?t"
  proof
    fix orig' assume orig': "orig' \<in> Orig"
    then have "quoteFree orig'" "orig' \<noteq> ?b" using Orig ne by auto
    then show "\<not> hasDoubled orig' ?t"
      unfolding substStep_def
      using hasDoubled_substRef[OF quoteFree_Nil po pb isQuote_squote, of orig' content] Cons.prems(2) orig'
      by blast
  qed
  have old: "\<forall>orig\<in>D. \<not> hasRef [] orig ?t"
  proof
    fix orig' assume orig': "orig' \<in> D"
    then have "quoteFree orig'" "orig' \<noteq> ?b" using Orig ne Cons.prems(4) by auto
    then show "\<not> hasRef [] orig' ?t"
      unfolding substStep_def
      using hasRef_substRef_other[OF quoteFree_Nil po pb isQuote_squote quoteFree_Nil, of orig' content]
        Cons.prems(3) orig'
      by blast
  qed
  have neq: "?orig \<noteq> ?b" using inO ne by auto
  have nd: "\<not> hasDoubled ?orig content" using Cons.prems(2) inO by simp
  have new: "\<not> hasRef [] ?orig ?t"
    unfolding substStep_def
    using po pb isQuote_squote neq nd by (rule hasRef_substRef_bare)
  have "\<forall>orig\<in>insert ?orig D \<union> originalPath ` set rs.
      \<not> hasRef [] orig (foldl (\<lambda>t r. substStep r t) ?t rs)"
  proof (rule Cons.IH)
    show "\<forall>r\<in>set rs. originalPath r \<in> Orig \<and> quoteFree (builtPath r) \<and> builtPath r \<notin> Orig"
      using Cons.prems(1) by simp
    show "\<forall>orig\<in>Orig. \<not> hasDoubled orig ?t" by (rule dbl)
    show "\<forall>orig\<in>insert ?orig D. \<not> hasRef [] orig ?t" using old new by simp
    show "insert ?orig D \<subseteq> Orig" using inO Cons.prems(4) by simp
  qed
  then show ?case by simp
qed

section \<open>One pass over a markup file\<close>

lemma attr_quoteFree:
  assumes "attr = ''src'' \<or> attr = ''href''"
  shows "quoteFree (attr @ ''='')" and "dollar \<notin> set (attr @ ''='')"
    and "set attr \<inter> set regexSpecials = {}"
  using assms src_plain href_plain
  by (auto simp: quoteFree_def isQuote_def squote_def dquote_def dollar_def)

lemma isQuote_dquote: "isQuote dquote"
  by (simp add: isQuote_def)

lemma tryAttr_eq:
  assumes attr: "attr = ''src'' \<or> attr = ''href''" and b: "dollar \<notin> set b"
  shows "tryAttr attr orig b st =
     Inr (if hasRef (attr @ ''='') orig (htmlContent st)
          then \<lparr>htmlContent = substRef (attr @ ''='') dquote orig b (htmlContent st),
                updated = True,
                printed = printed st @ [LogSubstituted orig b]\<rparr>
          else st)"
proof -
  let ?re = "refPattern [dquote, squote] (attr @ ''='') orig"
  have qs: "set [dquote, squote] = {squote, dquote}" by auto
  have re: "RegExp (attrRegexSource attr orig) = Inr ?re"
    using attr_quoteFree(3)[OF attr] by (rule RegExp_attr)
  have test: "regexTest ?re s \<longleftrightarrow> hasRef (attr @ ''='') orig s" for s
    using qs by (rule regexTest_refPattern)
  have "dollar \<notin> set ((attr @ ''='') @ [dquote] @ b @ [dquote])"
    using attr_quoteFree(2)[OF attr] b by (simp add: dollar_def dquote_def)
  then have "replaceFrom ?re ((attr @ ''='') @ [dquote] @ b @ [dquote]) [] s =
      substRef (attr @ ''='') dquote orig b s" for s
    using qs by (rule replaceFrom_substRef)
  then have rep: "replaceAll ?re (attr @ CHR ''='' # dquote # b @ [dquote]) s =
      substRef (attr @ ''='') dquote orig b s" for s
    by (simp add: replaceAll_def)
  show ?thesis
    unfolding tryAttr_def re by (simp add: test rep)
qed

lemma tryAttr_content:
  assumes attr: "attr = ''src'' \<or> attr = ''href''" and b: "dollar \<notin> set b"
  shows "\<exists>st'. tryAttr attr orig b st = Inr st' \<and>
           htmlContent st' = substRef (attr @ ''='') dquote orig b (htmlContent st)"
  unfolding tryAttr_eq[OF attr b] by (simp add: substRef_id)

lemma refersTo_iff:
  assumes "attr = ''src'' \<or> attr = ''href''"
  shows "refersTo attr orig s \<longleftrightarrow> hasRef (attr @ ''='') orig s"
proof -
  have qs: "set [dquote, squote] = {squote, dquote}" by auto
  show ?thesis
    unfolding refersTo_def RegExp_attr[OF attr_quoteFree(3)[OF assms]]
    using regexTest_refPattern[OF qs] by simp
qed

lemma js_not_attr:
  assumes "endsWith b ''.js''"
  shows "\<not> suffix ''src='' b" and "\<not> suffix ''href='' b"
proof -
  from assms obtain u where b: "b = u @ ''.js''" by (auto simp: endsWith_def suffix_def)
  show "\<not> suffix ''src='' b" unfolding b by (auto simp: suffix_def append_eq_append_conv2 Cons_eq_append_conv)
  show "\<not> suffix ''href='' b" unfolding b by (auto simp: suffix_def append_eq_append_conv2 Cons_eq_append_conv)
qed

lemma quoteFree_src: "quoteFree ''src=''" and quoteFree_href: "quoteFree ''href=''"
  using attr_quoteFree(1)[of "''src''"] attr_quoteFree(1)[of "''href''"] by simp_all

lemma tryPath_settles:
  assumes Os: "\<forall>orig\<in>Os. quoteFree orig"
    and f: "fst f \<in> Os" "quoteFree (snd f)" "dollar \<notin> set (snd f)" "endsWith (snd f) ''.js''"
      "snd f \<notin> Os"
    and D: "settledFor D (htmlContent st)" "D \<subseteq> Os"
  shows "\<exists>st'. tryPath f st = Inr st' \<and> settledFor (insert (fst f) D) (htmlContent st')"
proof -
  let ?orig = "fst f" and ?b = "snd f"
  have po: "quoteFree ?orig" using Os f(1) by blast
  have ne: "?orig \<noteq> ?b" using f(1,5) by auto
  note ns = js_not_attr[OF f(4)]
  obtain st1 where s1: "tryAttr ''src'' ?orig ?b st = Inr st1"
    and c1: "htmlContent st1 = substRef ''src='' dquote ?orig ?b (htmlContent st)"
    using tryAttr_content[of "''src''" ?b ?orig st] f(3) by auto
  obtain st2 where s2: "tryAttr ''href'' ?orig ?b st1 = Inr st2"
    and c2: "htmlContent st2 = substRef ''href='' dquote ?orig ?b (htmlContent st1)"
    using tryAttr_content[of "''href''" ?b ?orig st1] f(3) by auto
  have keep: "\<not> hasRef a' orig' (substRef a dquote ?orig ?b s)"
    if "\<not> hasRef a' orig' s" "quoteFree orig'" "orig' \<noteq> ?b"
      "a = ''src='' \<or> a = ''href=''" "a' = ''src='' \<or> a' = ''href=''" for a a' orig' s
  proof -
    have pa: "quoteFree a" "quoteFree a'" using that(4,5) quoteFree_src quoteFree_href by auto
    have "a' = [] \<or> \<not> suffix a' ?b" using that(5) ns by auto
    then show ?thesis
      using hasRef_substRef_other[OF pa(1) po f(2) isQuote_dquote pa(2) that(2,3), of s] that(1)
      by blast
  qed
  have old1: "settledFor D (htmlContent st1)"
    unfolding settledFor_def c1
  proof (intro ballI conjI)
    fix orig' assume o: "orig' \<in> D"
    then have "quoteFree orig'" "orig' \<noteq> ?b" using D(2) Os f(5) by auto
    moreover have "\<not> hasRef ''src='' orig' (htmlContent st)" "\<not> hasRef ''href='' orig' (htmlContent st)"
      using D(1) o by (auto simp: settledFor_def)
    ultimately show "\<not> hasRef ''src='' orig' (substRef ''src='' dquote ?orig ?b (htmlContent st))"
      "\<not> hasRef ''href='' orig' (substRef ''src='' dquote ?orig ?b (htmlContent st))"
      using keep by simp_all
  qed
  have new1: "\<not> hasRef ''src='' ?orig (htmlContent st1)"
    unfolding c1 using quoteFree_src po f(2) isQuote_dquote ne ns(1) by (rule hasRef_substRef_attr)
  have old2: "settledFor D (htmlContent st2)"
    unfolding settledFor_def c2
  proof (intro ballI conjI)
    fix orig' assume o: "orig' \<in> D"
    then have "quoteFree orig'" "orig' \<noteq> ?b" using D(2) Os f(5) by auto
    moreover have "\<not> hasRef ''src='' orig' (htmlContent st1)" "\<not> hasRef ''href='' orig' (htmlContent st1)"
      using old1 o by (auto simp: settledFor_def)
    ultimately show "\<not> hasRef ''src='' orig' (substRef ''href='' dquote ?orig ?b (htmlContent st1))"
      "\<not> hasRef ''href='' orig' (substRef ''href='' dquote ?orig ?b (htmlContent st1))"
      using keep by simp_all
  qed
  have new2a: "\<not> hasRef ''src='' ?orig (htmlContent st2)"
    unfolding c2 using keep[OF new1 po ne] by simp
  have new2b: "\<not> hasRef ''href='' ?orig (htmlContent st2)"
    unfolding c2 using quoteFree_href po f(2) isQuote_dquote ne ns(2) by (rule hasRef_substRef_attr)
  have "tryPath f st = Inr st2" using s1 s2 by (simp add: tryPath_def)
  moreover have "settledFor (insert ?orig D) (htmlContent st2)"
    using old2 new2a new2b by (simp add: settledFor_def)
  ultimately show ?thesis by blast
qed

lemma tryPaths_settles:
  assumes Os: "\<forall>orig\<in>Os. quoteFree orig"
  shows "(\<forall>f\<in>set forms. fst f \<in> Os \<and> quoteFree (snd f) \<and> dollar \<notin> set (snd f) \<and>
             endsWith (snd f) ''.js'' \<and> snd f \<notin> Os) \<Longrightarrow>
     settledFor D (htmlContent st) \<Longrightarrow> D \<subseteq> Os \<Longrightarrow>
     \<exists>st'. tryPaths forms st = Inr st' \<and> settledFor (D \<union> fst ` set forms) (htmlContent st')"
proof (induction forms arbitrary: st D)
  case Nil
  then show ?case by simp
next
  case (Cons f forms)
  have ff: "fst f \<in> Os" "quoteFree (snd f)" "dollar \<notin> set (snd f)" "endsWith (snd f) ''.js''"
      "snd f \<notin> Os"
    using Cons.prems(1) by simp_all
  from tryPath_settles[OF Os ff Cons.prems(2,3)]
  obtain st1 where s1: "tryPath f st = Inr st1"
    and d1: "settledFor (insert (fst f) D) (htmlContent st1)" by blast
  have "\<exists>st'. tryPaths forms st1 = Inr st' \<and>
      settledFor (insert (fst f) D \<union> fst ` set forms) (htmlContent st')"
  proof (rule Cons.IH)
    show "\<forall>f\<in>set forms. fst f \<in> Os \<and> quoteFree (snd f) \<and> dollar \<notin> set (snd f) \<and>
             endsWith (snd f) ''.js'' \<and> snd f \<notin> Os"
      using Cons.prems(1) by simp
    show "settledFor (insert (fst f) D) (htmlContent st1)" by (rule d1)
    show "insert (fst f) D \<subseteq> Os" using ff(1) Cons.prems(3) by simp
  qed
  then show ?case using s1 by simp
qed

lemma tryPaths_append:
  "tryPaths (xs @ ys) st = (case tryPaths xs st of Inl e \<Rightarrow> Inl e | Inr st' \<Rightarrow> tryPaths ys st')"
  by (induction xs arbitrary: st) (auto split: sum.splits)

lemma rewriteHtml_tryPaths:
  "rewriteHtml env htmlDir rs st = tryPaths (concat (map (pathsToTry env htmlDir) rs)) st"
  by (induction rs arbitrary: st) (auto simp: tryPaths_append split: sum.splits)

lemma mentions_iff:
  "mentions env htmlDir rs s \<longleftrightarrow>
     (\<exists>f\<in>set (concat (map (pathsToTry env htmlDir) rs)).
        hasRef ''src='' (fst f) s \<or> hasRef ''href='' (fst f) s)"
  unfolding mentions_def list_ex_iff
  using refersTo_iff[of "''src''"] refersTo_iff[of "''href''"] by auto

section \<open>When a markup file is written\<close>

lemma advances_refl: "advances st st False"
  by (simp add: advances_def substitutionLines_def)

lemma advances_then:
  assumes a: "advances st st1 m1" and b: "advances st1 st2 m2"
    and same: "\<not> m1 \<Longrightarrow> m2 = m2'"
  shows "advances st st2 (m1 \<or> m2')"
proof -
  from a obtain evs1 where e1: "printed st1 = printed st @ evs1" "substitutionLines evs1"
      "evs1 \<noteq> [] \<longleftrightarrow> m1"
    and u1: "updated st1 \<longleftrightarrow> updated st \<or> m1" and k1: "\<not> m1 \<longrightarrow> st1 = st"
    by (auto simp: advances_def)
  from b obtain evs2 where e2: "printed st2 = printed st1 @ evs2" "substitutionLines evs2"
      "evs2 \<noteq> [] \<longleftrightarrow> m2"
    and u2: "updated st2 \<longleftrightarrow> updated st1 \<or> m2" and k2: "\<not> m2 \<longrightarrow> st2 = st1"
    by (auto simp: advances_def)
  show ?thesis
  proof (cases m1)
    case True
    have "printed st2 = printed st @ (evs1 @ evs2)" using e1 e2 by simp
    moreover have "substitutionLines (evs1 @ evs2)"
      using e1 e2 by (simp add: substitutionLines_def)
    moreover have "evs1 @ evs2 \<noteq> []" using e1 True by simp
    ultimately show ?thesis using True u1 u2 by (auto simp: advances_def)
  next
    case False
    then have "m2 = m2'" by (rule same)
    with False a b k1 show ?thesis by (auto simp: advances_def)
  qed
qed

lemma tryAttr_advances:
  assumes "attr = ''src'' \<or> attr = ''href''"
  shows "\<exists>st'. tryAttr attr orig b st = Inr st' \<and>
           advances st st' (refersTo attr orig (htmlContent st))"
  using assms src_plain href_plain
  by (auto simp: tryAttr_def refersTo_def RegExp_attr advances_def substitutionLines_def)

lemma tryPath_advances:
  "\<exists>st'. tryPath f st = Inr st' \<and>
     advances st st' (refersTo ''src'' (fst f) (htmlContent st) \<or>
                      refersTo ''href'' (fst f) (htmlContent st))"
proof -
  obtain st1 where s1: "tryAttr ''src'' (fst f) (snd f) st = Inr st1"
    and a1: "advances st st1 (refersTo ''src'' (fst f) (htmlContent st))"
    using tryAttr_advances[of "''src''"] by blast
  obtain st2 where s2: "tryAttr ''href'' (fst f) (snd f) st1 = Inr st2"
    and a2: "advances st1 st2 (refersTo ''href'' (fst f) (htmlContent st1))"
    using tryAttr_advances[of "''href''"] by blast
  have "advances st st2 (refersTo ''src'' (fst f) (htmlContent st) \<or>
                      refersTo ''href'' (fst f) (htmlContent st))"
    using a1 a2
  proof (rule advances_then)
    assume "\<not> refersTo ''src'' (fst f) (htmlContent st)"
    with a1 have "st1 = st" by (simp add: advances_def)
    then show "refersTo ''href'' (fst f) (htmlContent st1) =
        refersTo ''href'' (fst f) (htmlContent st)" by simp
  qed
  with s1 s2 show ?thesis by (simp add: tryPath_def)
qed

lemma tryPaths_advances:
  "\<exists>st'. tryPaths forms st = Inr st' \<and>
     advances st st' (list_ex (\<lambda>f. refersTo ''src'' (fst f) (htmlContent st) \<or>
                                   refersTo ''href'' (fst f) (htmlContent st)) forms)"
proof (induction forms arbitrary: st)
  case Nil
  then show ?case by (simp add: advances_refl)
next
  case (Cons f forms)
  let ?m = "\<lambda>s f. refersTo ''src'' (fst f) (htmlContent s) \<or> refersTo ''href'' (fst f) (htmlContent s)"
  obtain st1 where s1: "tryPath f st = Inr st1" and a1: "advances st st1 (?m st f)"
    using tryPath_advances by blast
  from Cons.IH[of st1] obtain st2 where s2: "tryPaths forms st1 = Inr st2"
    and a2: "advances st1 st2 (list_ex (?m st1) forms)" by blast
  have "advances st st2 (?m st f \<or> list_ex (?m st) forms)"
    using a1 a2
  proof (rule advances_then)
    assume "\<not> ?m st f"
    with a1 have "st1 = st" by (simp add: advances_def)
    then show "list_ex (?m st1) forms = list_ex (?m st) forms" by simp
  qed
  with s1 s2 show ?case by simp
qed

lemma rewriteHtml_advances:
  "\<exists>st'. rewriteHtml env htmlDir rs st = Inr st' \<and>
     advances st st' (mentions env htmlDir rs (htmlContent st))"
proof -
  have "mentions env htmlDir rs (htmlContent st) =
      list_ex (\<lambda>f. refersTo ''src'' (fst f) (htmlContent st) \<or>
                    refersTo ''href'' (fst f) (htmlContent st))
        (concat (map (pathsToTry env htmlDir) rs))"
    by (auto simp: mentions_def list_ex_iff)
  then show ?thesis
    unfolding rewriteHtml_tryPaths using tryPaths_advances by simp
qed

section \<open>Claims\<close>

text \<open>
  C1. For a file \<open>root/dirs/name\<close> that is transformed, the output path is
  \<open>root/dirs/build/name\<close>, a \<open>build\<close> directory beside the source file, and for
  names without a backslash the build result holds \<open>dirs/name\<close> and
  \<open>dirs/build/name\<close> (lemma \<open>buildFile_paths\<close>). But \<open>buildFile\<close> replaces every
  backslash of the two relative paths by a slash, and on POSIX a backslash is a character
  of a file name, not a separator. The script of the root whose name is \<open>a\<close>, a
  backslash, \<open>b.js\<close> is returned by discovery, read, and written under its name into
  \<open>build\<close>; its build result holds \<open>a/b.js\<close> and \<open>build/a/b.js\<close>, which are the paths
  of no file.
\<close>

theorem build_records_absent_path:
  "findJsFiles demoEnv (rootDir demoEnv) (nodeAt demoEnv (fs backslashWorld) (rootDir demoEnv)) [] =
     Inr [''/res/'' @ backslashName] \<and>
   relativeToRoot demoEnv (''/res/'' @ backslashName) = backslashName \<and>
   outputPathFor (''/res/'' @ backslashName) = ''/res/build/'' @ backslashName \<and>
   snd (buildFile demoEnv (''/res/'' @ backslashName) backslashWorld) =
     Some \<lparr>originalPath = ''a/b.js'', builtPath = ''build/a/b.js''\<rparr> \<and>
   writes (fst (buildFile demoEnv (''/res/'' @ backslashName) backslashWorld)) =
     [''/res/build/'' @ backslashName] \<and>
   nodeAt demoEnv (fs (fst (buildFile demoEnv (''/res/'' @ backslashName) backslashWorld)))
     (''/res/build/'' @ backslashName) = File ''obf:min:f()'' \<and>
   nodeAt demoEnv (fs (fst (buildFile demoEnv (''/res/'' @ backslashName) backslashWorld)))
     (join (rootDir demoEnv) ''a/b.js'') = Fault ENOENT \<and>
   nodeAt demoEnv (fs (fst (buildFile demoEnv (''/res/'' @ backslashName) backslashWorld)))
     (join (rootDir demoEnv) ''build/a/b.js'') = Fault ENOENT"
  by code_simp

text \<open>
  C2. An exception in any step of the transform of one file (reading, minifying,
  obfuscating, creating the build directory, writing) is caught in \<open>buildFile\<close>: the
  file yields no build result, the error is printed, and the loop of \<open>main\<close> goes on
  with the files after it, keeping the results of the files before it.
\<close>

theorem build_failure_is_local:
  assumes earlier: "buildAll env pre builtFiles w = (w1, builtFiles1)"
    and raised: "readFileSync env (fs w1) file = Inl e \<or>
     (\<exists>code. readFileSync env (fs w1) file = Inr code \<and>
        (minify env code = Inl e \<or>
         (\<exists>minified. minify env code = Inr minified \<and>
            (obfuscate env minified = Inl e \<or>
             (\<exists>obfuscated. obfuscate env minified = Inr obfuscated \<and>
                ((\<not> existsSync env (fs w1) (buildDirFor file) \<and>
                  mkdirSync env (fs w1) (buildDirFor file) = Inl e) \<or>
                 (\<exists>fs2. (if \<not> existsSync env (fs w1) (buildDirFor file)
                          then mkdirSync env (fs w1) (buildDirFor file) else Inr (fs w1)) = Inr fs2 \<and>
                        writeFileSync env fs2 (outputPathFor file) obfuscated = Inl e)))))))"
  shows "\<exists>w'. buildFile env file w1 = (w', None) \<and>
           last (console w') = LogBuildError file e \<and>
           buildAll env (pre @ file # post) builtFiles w = buildAll env post builtFiles1 w'"
proof -
  from raised obtain w0 where body: "buildFileBody env file w1 = (w0, Inl e)"
    using buildFileBody_raises by blast
  then have one: "buildFile env file w1 = (say (LogBuildError file e) w0, None)"
    by (simp add: buildFile_def)
  have "buildAll env (pre @ file # post) builtFiles w =
      buildAll env post builtFiles1 (say (LogBuildError file e) w0)"
    using earlier one by (simp add: buildAll_append)
  with one show ?thesis by auto
qed

theorem build_failure_is_local_witness:
  "buildAll demoEnv ([] @ ''/res/broken.js'' # [''/res/main.js'']) [] demoWorld =
     buildAll demoEnv [''/res/main.js''] []
       (say (LogBuildError ''/res/broken.js'' MinifyError)
          (say (LogBuilding ''broken.js'') demoWorld)) \<and>
   snd (buildAll demoEnv [''/res/broken.js'', ''/res/main.js''] [] demoWorld) =
     [\<lparr>originalPath = ''main.js'', builtPath = ''build/main.js''\<rparr>]"
proof -
  have h1: "buildAll demoEnv [] [] demoWorld = (demoWorld, [])" by simp
  have rd: "readFileSync demoEnv (fs demoWorld) ''/res/broken.js'' = Inr ''(''"
    by code_simp
  have mn: "minify demoEnv ''('' = Inl MinifyError"
    by (simp add: demoEnv_def)
  have one: "buildFile demoEnv ''/res/broken.js'' demoWorld =
      (say (LogBuildError ''/res/broken.js'' MinifyError) (say (LogBuilding ''broken.js'') demoWorld), None)"
    by code_simp
  from build_failure_is_local[of demoEnv "[]" "[]" demoWorld demoWorld "[]" "''/res/broken.js''"
      MinifyError "[''/res/main.js'']", OF h1] rd mn
  obtain w' where "buildFile demoEnv ''/res/broken.js'' demoWorld = (w', None)"
    and "buildAll demoEnv ([] @ ''/res/broken.js'' # [''/res/main.js'']) [] demoWorld =
       buildAll demoEnv [''/res/main.js''] [] w'"
    by blast
  with one have a: "buildAll demoEnv ([] @ ''/res/broken.js'' # [''/res/main.js'']) [] demoWorld =
     buildAll demoEnv [''/res/main.js''] []
       (say (LogBuildError ''/res/broken.js'' MinifyError)
          (say (LogBuilding ''broken.js'') demoWorld))" by simp
  have b: "snd (buildAll demoEnv [''/res/broken.js'', ''/res/main.js''] [] demoWorld) =
     [\<lparr>originalPath = ''main.js'', builtPath = ''build/main.js''\<rparr>]"
    by code_simp
  from a b show ?thesis by simp
qed

text \<open>
  C3. The manifest rewriter applies the mappings in the order of the sequence and, for
  each, replaces the quoted original path by the built path between single quotes.
  The built path goes into the replacement template as it is, and \<open>replace\<close> reads a
  dollar sign in a template as a replacement pattern: a built path that holds \<open>$$\<close> is
  written with one dollar sign, which is the path of no file. (For built paths without a
  dollar sign the rewriter is the substitution of the specification, lemma
  \<open>rewriteManifest_substRef\<close>.)
\<close>

theorem manifest_dollar_expansion:
  "rewriteManifest [\<lparr>originalPath = ''lib$$.js'', builtPath = ''build/lib$$.js''\<rparr>]
     ([squote] @ ''lib$$.js'' @ [squote]) =
     Inr ([squote] @ ''build/lib$.js'' @ [squote])"
  by code_simp

text \<open>
  C4. Every path that script discovery returns from a directory lies below
  directories none of which is hidden (a name that starts with a dot) or in the
  ignored-directory set, is not in the ignored-file set once made relative to the
  root with forward slashes, and ends with \<open>.js\<close>. A hidden or ignored directory is
  skipped without being read, whatever it holds.
\<close>

theorem discovery_skips_ignored:
  assumes run: "findJsFiles env (absPath base) node [] = Inr found"
    and base: "\<forall>s\<in>set base. niceName s"
    and wf: "wfTree node"
  shows "(\<forall>p\<in>set found.
           (\<forall>d\<in>set (butlast (splitOn slash (relative (cwd env) (absPath base) p))).
              \<not> startsWith d ''.'' \<and> d \<notin> set IGNORE_DIRS) \<and>
           toForwardSlashes (relativeToRoot env p) \<notin> set IGNORE_FILE_PATHS \<and>
           endsWith p ''.js'') \<and>
         (\<forall>dir name child rest fileList.
            statSync child = Inr True \<longrightarrow> startsWith name ''.'' \<or> name \<in> set IGNORE_DIRS \<longrightarrow>
            findJsEntries env dir ((name, child) # rest) fileList =
              findJsEntries env dir rest fileList)"
proof -
  have "\<forall>p\<in>set found. p \<in> set [] \<or> located env base p"
    using discovery_invariant(1)[of "absPath base" node env "[]"] run base wf by blast
  then have "\<forall>p\<in>set found. located env base p" by simp
  then have first: "\<forall>p\<in>set found.
           (\<forall>d\<in>set (butlast (splitOn slash (relative (cwd env) (absPath base) p))).
              \<not> startsWith d ''.'' \<and> d \<notin> set IGNORE_DIRS) \<and>
           toForwardSlashes (relativeToRoot env p) \<notin> set IGNORE_FILE_PATHS \<and>
           endsWith p ''.js''"
    using located_segments[OF _ base] by blast
  have second: "\<forall>dir name child rest fileList.
            statSync child = Inr True \<longrightarrow> startsWith name ''.'' \<or> name \<in> set IGNORE_DIRS \<longrightarrow>
            findJsEntries env dir ((name, child) # rest) fileList =
              findJsEntries env dir rest fileList"
    by auto
  from first second show ?thesis by blast
qed

theorem discovery_skips_ignored_witness:
  "findJsFiles demoEnv ''/res'' clutteredTree [] = Inr [''/res/client/ui.js'', ''/res/web/script.js''] \<and>
   butlast (splitOn slash (relative (cwd demoEnv) ''/res'' ''/res/web/script.js'')) = [''web''] \<and>
   \<not> startsWith ''web'' ''.'' \<and> ''web'' \<notin> set IGNORE_DIRS \<and>
   toForwardSlashes (relativeToRoot demoEnv ''/res/web/script.js'') \<notin> set IGNORE_FILE_PATHS \<and>
   endsWith ''/res/web/script.js'' ''.js'' \<and>
   findJsEntries demoEnv ''/res'' [(''node_modules'', Locked)] [] = Inr []"
proof -
  have abs: "absPath [''res''] = ''/res''" by (simp add: absPath_def slash_def)
  have run: "findJsFiles demoEnv (absPath [''res'']) clutteredTree [] =
      Inr [''/res/client/ui.js'', ''/res/web/script.js'']"
    by code_simp
  have base: "\<forall>s\<in>set [''res'']. niceName s" by (simp add: niceName_def slash_def)
  have wf: "wfTree clutteredTree" by code_simp
  have segs: "butlast (splitOn slash (relative (cwd demoEnv) ''/res'' ''/res/web/script.js'')) = [''web'']"
    by code_simp
  have pruned: "statSync Locked = Inr True \<and> ''node_modules'' \<in> set IGNORE_DIRS"
    by (simp add: IGNORE_DIRS_def)
  have nil: "findJsEntries demoEnv ''/res'' [] [] = Inr []" by simp
  note t = discovery_skips_ignored[OF run base wf]
  from t have "findJsEntries demoEnv ''/res'' [(''node_modules'', Locked)] [] =
      findJsEntries demoEnv ''/res'' [] []"
    using pruned by blast
  moreover from t have "(\<forall>d\<in>set (butlast (splitOn slash (relative (cwd demoEnv) (absPath [''res'']) ''/res/web/script.js''))).
              \<not> startsWith d ''.'' \<and> d \<notin> set IGNORE_DIRS) \<and>
           toForwardSlashes (relativeToRoot demoEnv ''/res/web/script.js'') \<notin> set IGNORE_FILE_PATHS \<and>
           endsWith ''/res/web/script.js'' ''.js''"
    by simp
  ultimately show ?thesis using run segs nil unfolding abs by simp
qed




text \<open>
  C6. After the rewrite, no original path of the mappings is left between quote
  characters in the manifest, provided that no path holds a quote character, no built
  path holds a dollar sign, no built path is the original path of a mapping, and the
  manifest has no two references to an original path that share a quote character.
\<close>

theorem manifest_no_reference_left:
  assumes clean: "\<forall>r\<in>set rs. quoteFree (originalPath r) \<and> quoteFree (builtPath r) \<and>
                    dollar \<notin> set (builtPath r)"
    and apart: "\<forall>r\<in>set rs. \<forall>r'\<in>set rs. builtPath r \<noteq> originalPath r'"
    and single: "\<forall>r\<in>set rs. \<not> hasDoubled (originalPath r) content"
  shows "\<exists>out. rewriteManifest rs content = Inr out \<and>
           (\<forall>r\<in>set rs. \<not> hasRef [] (originalPath r) out)"
proof -
  let ?Os = "originalPath ` set rs"
  have out: "rewriteManifest rs content = Inr (foldl (\<lambda>t r. substStep r t) content rs)"
    using clean by (intro rewriteManifest_substRef) simp
  have "\<forall>orig\<in>{} \<union> originalPath ` set rs. \<not> hasRef [] orig (foldl (\<lambda>t r. substStep r t) content rs)"
  proof (rule manifest_settles[where Orig = ?Os])
    show "\<forall>orig\<in>?Os. quoteFree orig" using clean by auto
    show "\<forall>r\<in>set rs. originalPath r \<in> ?Os \<and> quoteFree (builtPath r) \<and> builtPath r \<notin> ?Os"
      using clean apart by auto
    show "\<forall>orig\<in>?Os. \<not> hasDoubled orig content" using single by auto
  qed simp_all
  with out show ?thesis by auto
qed

theorem manifest_no_reference_left_witness:
  "rewriteManifest scenarioResults scenarioManifest =
     Inr (''client_scripts { '' @ [squote] @ ''build/main.js'' @ [squote] @ '', '' @
          [squote] @ ''web/build/script.js'' @ [squote] @ '' }'') \<and>
   \<not> hasRef [] ''main.js''
       (''client_scripts { '' @ [squote] @ ''build/main.js'' @ [squote] @ '', '' @
          [squote] @ ''web/build/script.js'' @ [squote] @ '' }'') \<and>
   \<not> hasRef [] ''web/script.js''
       (''client_scripts { '' @ [squote] @ ''build/main.js'' @ [squote] @ '', '' @
          [squote] @ ''web/build/script.js'' @ [squote] @ '' }'')"
proof -
  have clean: "\<forall>r\<in>set scenarioResults. quoteFree (originalPath r) \<and> quoteFree (builtPath r) \<and>
                    dollar \<notin> set (builtPath r)"
    by code_simp
  have apart: "\<forall>r\<in>set scenarioResults. \<forall>r'\<in>set scenarioResults. builtPath r \<noteq> originalPath r'"
    by code_simp
  have single: "\<forall>r\<in>set scenarioResults. \<not> hasDoubled (originalPath r) scenarioManifest"
    by code_simp
  have run: "rewriteManifest scenarioResults scenarioManifest =
     Inr (''client_scripts { '' @ [squote] @ ''build/main.js'' @ [squote] @ '', '' @
          [squote] @ ''web/build/script.js'' @ [squote] @ '' }'')"
    by code_simp
  from manifest_no_reference_left[OF clean apart single] run
  have "\<forall>r\<in>set scenarioResults. \<not> hasRef [] (originalPath r)
       (''client_scripts { '' @ [squote] @ ''build/main.js'' @ [squote] @ '', '' @
          [squote] @ ''web/build/script.js'' @ [squote] @ '' }'')"
    by auto
  then show ?thesis using run by (simp add: scenarioResults_def)
qed

text \<open>
  Without the last proviso a reference remains: the closing quote of the reference that
  is replaced was the opening quote of the next one.
\<close>

theorem manifest_reference_left_counterexample:
  "rewriteManifest [\<lparr>originalPath = ''a.js'', builtPath = ''build/a.js''\<rparr>]
     ([squote] @ ''a.js'' @ [squote] @ ''a.js'' @ [squote]) =
     Inr ([squote] @ ''build/a.js'' @ [squote] @ ''a.js'' @ [squote]) \<and>
   hasRef [] ''a.js'' ([squote] @ ''build/a.js'' @ [squote] @ ''a.js'' @ [squote])"
  by code_simp

text \<open>
  C7. A second pass of the markup rewriter over the text it wrote changes nothing, and
  no \<open>src\<close> or \<open>href\<close> attribute holds an original path after the first pass, provided that no
  path (in either form) holds a quote character, no built path holds a dollar sign,
  every built path ends with \<open>.js\<close>, and no built path is the original path of a
  mapping.
\<close>

theorem html_second_pass_changes_nothing:
  assumes shape: "\<forall>r\<in>set rs. \<forall>f\<in>set (pathsToTry env htmlDir r).
        quoteFree (fst f) \<and> quoteFree (snd f) \<and> dollar \<notin> set (snd f) \<and> endsWith (snd f) ''.js''"
    and apart: "\<forall>r\<in>set rs. \<forall>f\<in>set (pathsToTry env htmlDir r).
        \<forall>r'\<in>set rs. \<forall>f'\<in>set (pathsToTry env htmlDir r'). snd f \<noteq> fst f'"
  shows "\<exists>st1. rewriteHtml env htmlDir rs st = Inr st1 \<and>
           \<not> mentions env htmlDir rs (htmlContent st1) \<and>
           (\<forall>st2. htmlContent st2 = htmlContent st1 \<longrightarrow>
              rewriteHtml env htmlDir rs st2 = Inr st2)"
proof -
  let ?fl = "concat (map (pathsToTry env htmlDir) rs)"
  let ?Os = "fst ` set ?fl"
  have Os: "\<forall>orig\<in>?Os. quoteFree orig" using shape by auto
  have each: "\<forall>f\<in>set ?fl. fst f \<in> ?Os \<and> quoteFree (snd f) \<and> dollar \<notin> set (snd f) \<and>
             endsWith (snd f) ''.js'' \<and> snd f \<notin> ?Os"
  proof
    fix f assume f: "f \<in> set ?fl"
    then obtain r where r: "r \<in> set rs" "f \<in> set (pathsToTry env htmlDir r)" by auto
    have "snd f \<notin> ?Os"
    proof
      assume "snd f \<in> ?Os"
      then obtain f' where "f' \<in> set ?fl" "snd f = fst f'" by auto
      then obtain r' where "r' \<in> set rs" "f' \<in> set (pathsToTry env htmlDir r')" by auto
      with apart r \<open>snd f = fst f'\<close> show False by blast
    qed
    with shape r f show "fst f \<in> ?Os \<and> quoteFree (snd f) \<and> dollar \<notin> set (snd f) \<and>
             endsWith (snd f) ''.js'' \<and> snd f \<notin> ?Os" by auto
  qed
  have "settledFor {} (htmlContent st)" by (simp add: settledFor_def)
  from tryPaths_settles[OF Os each this]
  obtain st1 where s1: "tryPaths ?fl st = Inr st1"
    and d1: "settledFor ({} \<union> ?Os) (htmlContent st1)" by auto
  have none: "\<not> mentions env htmlDir rs (htmlContent st1)"
    unfolding mentions_iff using d1 by (auto simp: settledFor_def)
  then have "\<forall>st2. htmlContent st2 = htmlContent st1 \<longrightarrow>
      rewriteHtml env htmlDir rs st2 = Inr st2"
    by (simp add: rewriteHtml_no_match)
  with s1 none show ?thesis by (simp add: rewriteHtml_tryPaths)
qed

theorem html_second_pass_changes_nothing_witness:
  "rewriteHtml demoEnv ''/res'' scenarioResults
      \<lparr>htmlContent = scenarioPage, updated = False, printed = []\<rparr> = Inr rewrittenPage \<and>
   rewriteHtml demoEnv ''/res'' scenarioResults
      \<lparr>htmlContent = htmlContent rewrittenPage, updated = False, printed = []\<rparr> =
     Inr \<lparr>htmlContent = htmlContent rewrittenPage, updated = False, printed = []\<rparr>"
proof -
  have shape: "\<forall>r\<in>set scenarioResults. \<forall>f\<in>set (pathsToTry demoEnv ''/res'' r).
        quoteFree (fst f) \<and> quoteFree (snd f) \<and> dollar \<notin> set (snd f) \<and> endsWith (snd f) ''.js''"
    by code_simp
  have apart: "\<forall>r\<in>set scenarioResults. \<forall>f\<in>set (pathsToTry demoEnv ''/res'' r).
        \<forall>r'\<in>set scenarioResults. \<forall>f'\<in>set (pathsToTry demoEnv ''/res'' r'). snd f \<noteq> fst f'"
    by code_simp
  have run: "rewriteHtml demoEnv ''/res'' scenarioResults
      \<lparr>htmlContent = scenarioPage, updated = False, printed = []\<rparr> = Inr rewrittenPage"
    by code_simp
  from html_second_pass_changes_nothing[OF shape apart,
      of "\<lparr>htmlContent = scenarioPage, updated = False, printed = []\<rparr>"] run
  have "\<forall>st2. htmlContent st2 = htmlContent rewrittenPage \<longrightarrow>
      rewriteHtml demoEnv ''/res'' scenarioResults st2 = Inr st2"
    by auto
  then have "rewriteHtml demoEnv ''/res'' scenarioResults
      \<lparr>htmlContent = htmlContent rewrittenPage, updated = False, printed = []\<rparr> =
     Inr \<lparr>htmlContent = htmlContent rewrittenPage, updated = False, printed = []\<rparr>"
    by simp
  with run show ?thesis by simp
qed

text \<open>
  Without the first proviso the second pass may rewrite again. A script whose name holds
  quote characters is discovered and built like any other; in a page of the directory
  beside it, the first pass replaces the first reference, and what it writes closes, with
  the attribute that follows, a reference that the second pass replaces.
\<close>

theorem html_second_pass_counterexample:
  "findJsFiles demoEnv (rootDir demoEnv) (nodeAt demoEnv (fs quotedWorld) (rootDir demoEnv)) [] =
     Inr [''/res/'' @ quotedName] \<and>
   snd (buildFile demoEnv (''/res/'' @ quotedName) quotedWorld) = Some quotedResult \<and>
   findHtmlFiles demoEnv (rootDir demoEnv) (nodeAt demoEnv (fs quotedWorld) (rootDir demoEnv)) [] =
     Inr [''/res/web/page.html''] \<and>
   rewriteHtml demoEnv (dirname ''/res/web/page.html'') [quotedResult]
      \<lparr>htmlContent = srcAttr ''a.js'' @ srcAttr ''a.js'' @ srcAttr ''a.js'',
       updated = False, printed = []\<rparr> =
     Inr \<lparr>htmlContent = srcAttr ''build/a.js'' @ srcAttr ''a.js'' @ srcAttr ''a.js'',
          updated = True,
          printed = [LogSubstituted quotedName (''build/'' @ quotedName)]\<rparr> \<and>
   rewriteHtml demoEnv (dirname ''/res/web/page.html'') [quotedResult]
      \<lparr>htmlContent = srcAttr ''build/a.js'' @ srcAttr ''a.js'' @ srcAttr ''a.js'',
       updated = False, printed = []\<rparr> =
     Inr \<lparr>htmlContent = srcAttr ''build/a.js'' @ srcAttr ''build/a.js'' @ srcAttr ''a.js'',
          updated = True,
          printed = [LogSubstituted quotedName (''build/'' @ quotedName)]\<rparr>"
  by code_simp

text \<open>
  C8. When the manifest does not exist, \<open>updateManifest\<close> prints a warning and returns
  without writing: the file system and the list of the paths written are as the builds
  left them, and \<open>main\<close> goes on with the markup files.
\<close>

theorem manifest_missing:
  "(\<not> existsSync env (fs v) (join (rootDir env) MANIFEST_FILE) \<longrightarrow>
      updateManifest env results v = Inr (say (LogManifestNotFound MANIFEST_FILE) v) \<and>
      fs (say (LogManifestNotFound MANIFEST_FILE) v) = fs v \<and>
      writes (say (LogManifestNotFound MANIFEST_FILE) v) = writes v) \<and>
   (findJsFiles env (rootDir env) (nodeAt env (fs w) (rootDir env)) [] = Inr jsFiles \<longrightarrow>
    buildAll env jsFiles []
        (say (LogFound (length jsFiles))
          (say (LogIgnoringFiles IGNORE_FILE_PATHS)
            (say (LogIgnoringDirs IGNORE_DIRS) (say LogScanning w)))) = (w2, builtFiles) \<longrightarrow>
    builtFiles \<noteq> [] \<longrightarrow>
    \<not> existsSync env (fs w2) (join (rootDir env) MANIFEST_FILE) \<longrightarrow>
      main env w =
        updateHtmlFiles env builtFiles
          (say (LogManifestNotFound MANIFEST_FILE) (say LogBuildComplete w2)))"
proof (intro conjI impI)
  assume "\<not> existsSync env (fs v) (join (rootDir env) MANIFEST_FILE)"
  then show "updateManifest env results v = Inr (say (LogManifestNotFound MANIFEST_FILE) v)"
    by (simp add: updateManifest_def)
next
  show "fs (say (LogManifestNotFound MANIFEST_FILE) v) = fs v" by simp
next
  show "writes (say (LogManifestNotFound MANIFEST_FILE) v) = writes v" by simp
next
  assume found: "findJsFiles env (rootDir env) (nodeAt env (fs w) (rootDir env)) [] = Inr jsFiles"
    and built: "buildAll env jsFiles []
        (say (LogFound (length jsFiles))
          (say (LogIgnoringFiles IGNORE_FILE_PATHS)
            (say (LogIgnoringDirs IGNORE_DIRS) (say LogScanning w)))) = (w2, builtFiles)"
    and some: "builtFiles \<noteq> []"
    and missing: "\<not> existsSync env (fs w2) (join (rootDir env) MANIFEST_FILE)"
  have files: "jsFiles \<noteq> []"
    using built some by auto
  have upd: "updateManifest env builtFiles (say LogBuildComplete w2) =
      Inr (say (LogManifestNotFound MANIFEST_FILE) (say LogBuildComplete w2))"
    using missing by (simp add: updateManifest_def)
  show "main env w =
      updateHtmlFiles env builtFiles
        (say (LogManifestNotFound MANIFEST_FILE) (say LogBuildComplete w2))"
    using found built some files upd by (simp add: main_def)
qed

theorem manifest_missing_witness:
  "snd demoBuilt = [\<lparr>originalPath = ''main.js'', builtPath = ''build/main.js''\<rparr>] \<and>
   \<not> existsSync demoEnv (fs (fst demoBuilt)) (join (rootDir demoEnv) MANIFEST_FILE) \<and>
   updateManifest demoEnv (snd demoBuilt) (say LogBuildComplete (fst demoBuilt)) =
     Inr (say (LogManifestNotFound MANIFEST_FILE) (say LogBuildComplete (fst demoBuilt))) \<and>
   main demoEnv demoWorld =
     updateHtmlFiles demoEnv (snd demoBuilt)
       (say (LogManifestNotFound MANIFEST_FILE) (say LogBuildComplete (fst demoBuilt)))"
proof -
  have found: "findJsFiles demoEnv (rootDir demoEnv)
      (nodeAt demoEnv (fs demoWorld) (rootDir demoEnv)) [] = Inr [''/res/broken.js'', ''/res/main.js'']"
    by code_simp
  have built: "buildAll demoEnv [''/res/broken.js'', ''/res/main.js''] []
        (say (LogFound (length [''/res/broken.js'', ''/res/main.js'']))
          (say (LogIgnoringFiles IGNORE_FILE_PATHS)
            (say (LogIgnoringDirs IGNORE_DIRS) (say LogScanning demoWorld)))) =
        (fst demoBuilt, snd demoBuilt)"
    by (simp add: demoBuilt_def numeral_2_eq_2 del: buildAll.simps)
  have res: "snd demoBuilt = [\<lparr>originalPath = ''main.js'', builtPath = ''build/main.js''\<rparr>]"
    by code_simp
  then have some: "snd demoBuilt \<noteq> []" by simp
  have missing: "\<not> existsSync demoEnv (fs (fst demoBuilt)) (join (rootDir demoEnv) MANIFEST_FILE)"
    by code_simp
  have missing': "\<not> existsSync demoEnv (fs (say LogBuildComplete (fst demoBuilt)))
      (join (rootDir demoEnv) MANIFEST_FILE)"
    using missing by simp
  note t = manifest_missing[of demoEnv "say LogBuildComplete (fst demoBuilt)" "snd demoBuilt"
      demoWorld "[''/res/broken.js'', ''/res/main.js'']" "fst demoBuilt" "snd demoBuilt"]
  from t missing' have a: "updateManifest demoEnv (snd demoBuilt) (say LogBuildComplete (fst demoBuilt)) =
     Inr (say (LogManifestNotFound MANIFEST_FILE) (say LogBuildComplete (fst demoBuilt)))"
    by blast
  from t found built some missing have b: "main demoEnv demoWorld =
     updateHtmlFiles demoEnv (snd demoBuilt)
       (say (LogManifestNotFound MANIFEST_FILE) (say LogBuildComplete (fst demoBuilt)))"
    by blast
  from res missing a b show ?thesis by (intro conjI)
qed

text \<open>
  C9. A markup file is written exactly if a substitution was made in it, that is, if its
  text held a \<open>src\<close> or \<open>href\<close> attribute with the original path of a build result in
  one of its two forms. If it held none, nothing is written: the file system and the
  list of the paths written are as before, and the notice of no changes is printed. If
  it held one and the step returns, the path of the file is the one path written, the
  file holds the rewritten text, and the lines printed are the substitutions, one at
  least, and then the notice of the update.
\<close>

theorem html_written_iff_substituted:
  assumes read: "readFileSync env (fs w) htmlPath = Inr content"
  shows "(\<not> mentions env (dirname htmlPath) builtFiles content \<longrightarrow>
            updateHtmlFile env builtFiles htmlPath w =
              Inr (say (LogHtmlNoChanges (relativeToRoot env htmlPath)) w)) \<and>
         (mentions env (dirname htmlPath) builtFiles content \<longrightarrow>
            (\<exists>st. rewriteHtml env (dirname htmlPath) builtFiles
                    \<lparr>htmlContent = content, updated = False, printed = []\<rparr> = Inr st \<and>
               (case writeFileSync env (fs w) htmlPath (htmlContent st) of
                  Inl e \<Rightarrow> updateHtmlFile env builtFiles htmlPath w = Inl e
                | Inr fs' \<Rightarrow> \<exists>w'. updateHtmlFile env builtFiles htmlPath w = Inr w' \<and> fs w' = fs'))) \<and>
         (\<forall>w'. updateHtmlFile env builtFiles htmlPath w = Inr w' \<longrightarrow>
            (if mentions env (dirname htmlPath) builtFiles content
             then writes w' = writes w @ [htmlPath] \<and>
                  (\<exists>st. rewriteHtml env (dirname htmlPath) builtFiles
                          \<lparr>htmlContent = content, updated = False, printed = []\<rparr> = Inr st \<and>
                        nodeAt env (fs w') htmlPath = File (htmlContent st) \<and>
                        printed st \<noteq> [] \<and> substitutionLines (printed st) \<and>
                        console w' = console w @ printed st @
                          [LogHtmlUpdated (relativeToRoot env htmlPath)])
             else writes w' = writes w \<and> fs w' = fs w \<and>
                  console w' = console w @ [LogHtmlNoChanges (relativeToRoot env htmlPath)]))"
proof -
  let ?st0 = "\<lparr>htmlContent = content, updated = False, printed = []\<rparr>"
  obtain st where run: "rewriteHtml env (dirname htmlPath) builtFiles ?st0 = Inr st"
    and adv: "advances ?st0 st (mentions env (dirname htmlPath) builtFiles (htmlContent ?st0))"
    using rewriteHtml_advances by blast
  from adv have flag: "updated st \<longleftrightarrow> mentions env (dirname htmlPath) builtFiles content"
    and same: "\<not> mentions env (dirname htmlPath) builtFiles content \<longrightarrow> st = ?st0"
    and lines: "substitutionLines (printed st)"
      "printed st \<noteq> [] \<longleftrightarrow> mentions env (dirname htmlPath) builtFiles content"
    by (auto simp: advances_def)
  show ?thesis
  proof (cases "mentions env (dirname htmlPath) builtFiles content")
    case False
    with same have st: "st = ?st0" by simp
    have "updateHtmlFile env builtFiles htmlPath w =
        Inr (say (LogHtmlNoChanges (relativeToRoot env htmlPath)) w)"
      using read run by (simp add: updateHtmlFile_def st)
    with False show ?thesis by auto
  next
    case True
    with flag have up: "updated st" by simp
    have attempt: "case writeFileSync env (fs w) htmlPath (htmlContent st) of
                  Inl e \<Rightarrow> updateHtmlFile env builtFiles htmlPath w = Inl e
                | Inr fs' \<Rightarrow> \<exists>w'. updateHtmlFile env builtFiles htmlPath w = Inr w' \<and> fs w' = fs'"
      using read run up by (simp add: updateHtmlFile_def Let_def split: sum.splits)
    have "writes w' = writes w @ [htmlPath] \<and>
          nodeAt env (fs w') htmlPath = File (htmlContent st) \<and>
          console w' = console w @ printed st @ [LogHtmlUpdated (relativeToRoot env htmlPath)]"
      if res: "updateHtmlFile env builtFiles htmlPath w = Inr w'" for w'
    proof -
      from res read run up obtain fs' where
        wr: "writeFileSync env (fs w) htmlPath (htmlContent st) = Inr fs'"
        and w': "w' = say (LogHtmlUpdated (relativeToRoot env htmlPath))
                   (w\<lparr>console := console w @ printed st, fs := fs',
                      writes := writes w @ [htmlPath]\<rparr>)"
        by (auto simp: updateHtmlFile_def Let_def split: sum.splits)
      from wr have "nodeAt env fs' htmlPath = File (htmlContent st)"
        by (rule writeFileSync_nodeAt)
      then show ?thesis by (simp add: w')
    qed
    with True run lines attempt show ?thesis by auto
  qed
qed

theorem html_written_iff_substituted_witness:
  "updateHtmlFile demoEnv demoResults ''/res/index.html'' (pageWorld ''<p>hello</p>'') =
     Inr (say (LogHtmlNoChanges ''index.html'') (pageWorld ''<p>hello</p>'')) \<and>
   writes (say (LogHtmlNoChanges ''index.html'') (pageWorld ''<p>hello</p>'')) = [] \<and>
   mentions demoEnv ''/res'' demoResults demoPage \<and>
   updateHtmlFile demoEnv demoResults ''/res/index.html'' (pageWorld demoPage) =
     Inr \<lparr>fs = Dir [(''res'', Dir [(''main.js'', File ''f()''),
              (''index.html'', File (''<script src='' @ [dquote] @ ''build/main.js'' @ [dquote] @ ''></script>''))])],
          console = [LogSubstituted ''main.js'' ''build/main.js'', LogHtmlUpdated ''index.html''],
          writes = [''/res/index.html'']\<rparr>"
proof -
  have read1: "readFileSync demoEnv (fs (pageWorld ''<p>hello</p>'')) ''/res/index.html'' =
      Inr ''<p>hello</p>''"
    by code_simp
  have none: "\<not> mentions demoEnv (dirname ''/res/index.html'') demoResults ''<p>hello</p>''"
    by code_simp
  have rel: "relativeToRoot demoEnv ''/res/index.html'' = ''index.html''"
    by code_simp
  have a: "updateHtmlFile demoEnv demoResults ''/res/index.html'' (pageWorld ''<p>hello</p>'') =
     Inr (say (LogHtmlNoChanges ''index.html'') (pageWorld ''<p>hello</p>''))"
    using html_written_iff_substituted[OF read1, of demoResults] none rel by simp
  have a': "writes (say (LogHtmlNoChanges ''index.html'') (pageWorld ''<p>hello</p>'')) = []"
    by (simp add: pageWorld_def)
  have read2: "readFileSync demoEnv (fs (pageWorld demoPage)) ''/res/index.html'' = Inr demoPage"
    by code_simp
  have dir: "dirname ''/res/index.html'' = ''/res''"
    by code_simp
  have m: "mentions demoEnv ''/res'' demoResults demoPage"
    by code_simp
  have run: "updateHtmlFile demoEnv demoResults ''/res/index.html'' (pageWorld demoPage) =
     Inr \<lparr>fs = Dir [(''res'', Dir [(''main.js'', File ''f()''),
              (''index.html'', File (''<script src='' @ [dquote] @ ''build/main.js'' @ [dquote] @ ''></script>''))])],
          console = [LogSubstituted ''main.js'' ''build/main.js'', LogHtmlUpdated ''index.html''],
          writes = [''/res/index.html'']\<rparr>"
    by code_simp
  have b: "writes \<lparr>fs = Dir [(''res'', Dir [(''main.js'', File ''f()''),
              (''index.html'', File (''<script src='' @ [dquote] @ ''build/main.js'' @ [dquote] @ ''></script>''))])],
          console = [LogSubstituted ''main.js'' ''build/main.js'', LogHtmlUpdated ''index.html''],
          writes = [''/res/index.html'']\<rparr> = writes (pageWorld demoPage) @ [''/res/index.html'']"
    using html_written_iff_substituted[OF read2, of demoResults] run m dir by simp
  from a a' m run show ?thesis by (intro conjI)
qed




end
